theory Spec2Isabelle
  imports Complex_Main "HOL-Library.Char_ord" "HOL-Library.List_Lexorder"
begin

section \<open>Exceptions\<close>

text \<open>
  The exceptions that \<^verbatim>\<open>convert_embeddings_pkl_to_json.py\<close> can raise between loading the pickle
  and building the output document.  Two \<^verbatim>\<open>ValueError\<close>s are raised by the script itself
  (\<^verbatim>\<open>extract_items\<close>, \<^verbatim>\<open>coerce_vector\<close>); every other one comes from a builtin
  (\<^verbatim>\<open>float\<close>, \<^verbatim>\<open>math.floor\<close>, \<^verbatim>\<open>math.sqrt\<close>, the truth value of an ndarray).
  \<^verbatim>\<open>sys.exit(3)\<close> is \<open>SystemExit 3\<close>.
\<close>

datatype value_error = StructureNotSupported | VectorFormatNotSupported | BuiltinValueError

datatype error = ValueError value_error | TypeError | OverflowError | ZeroDivisionError | SystemExit int

section \<open>Python floats: IEEE 754 binary64, round to nearest, ties to even\<close>

text \<open>
  A finite float is a sign, a mantissa and an exponent, with value \<open>\<plusminus> m * 2 ^ e\<close>.  The doubles are
  the values with \<open>m < 2 ^ 53\<close> and \<open>- 1074 \<le> e \<le> 971\<close>; the representation produced by every
  operation below is the canonical one (\<open>2 ^ 52 \<le> m\<close>, or \<open>e = - 1074\<close> for subnormals and zero).
\<close>

datatype float64 = Flt bool nat int | FInf bool | FNaN

fun bitlen :: "nat \<Rightarrow> nat" where
  "bitlen n = (if n = 0 then 0 else Suc (bitlen (n div 2)))"

declare bitlen.simps [simp del]

definition rne_div :: "nat \<Rightarrow> nat \<Rightarrow> nat" where
  \<comment> \<open>the integer nearest to \<open>n / d\<close>, a tie going to the even one\<close>
  "rne_div n d =
     (let q = n div d; r = n mod d
      in if 2 * r < d then q
         else if d < 2 * r then q + 1
         else if even q then q else q + 1)"

definition round_core :: "nat \<Rightarrow> int \<Rightarrow> int \<Rightarrow> bool \<Rightarrow> nat \<Rightarrow> nat \<Rightarrow> int \<Rightarrow> float64" where
  \<comment> \<open>rounds \<open>\<plusminus> (n / d) * 2 ^ E\<close> to \<open>p\<close> bits of mantissa, exponents from \<open>emin\<close> to \<open>emax\<close>\<close>
  "round_core p emin emax s n d E =
     (if n = 0 then Flt s 0 emin
      else
        let a = E + int (bitlen n) - int (bitlen d);
            L = (if d * 2 ^ bitlen n \<le> n * 2 ^ bitlen d then a else a - 1);
            e = max (L - (int p - 1)) emin;
            q = (if E \<le> e then rne_div n (d * 2 ^ nat (e - E))
                 else rne_div (n * 2 ^ nat (E - e)) d);
            q' = (if q = 2 ^ p then 2 ^ (p - 1) else q);
            e' = (if q = 2 ^ p then e + 1 else e)
        in if emax < e' then FInf s else Flt s q' e')"

definition round64 :: "bool \<Rightarrow> nat \<Rightarrow> nat \<Rightarrow> int \<Rightarrow> float64" where
  "round64 = round_core 53 (- 1074) 971"

definition round32 :: "bool \<Rightarrow> nat \<Rightarrow> nat \<Rightarrow> int \<Rightarrow> float64" where
  "round32 = round_core 24 (- 149) 104"

definition fzero :: float64 where
  "fzero = Flt False 0 (- 1074)"

definition fone :: float64 where
  "fone = Flt False 4503599627370496 (- 52)"

definition fhalf :: float64 where
  \<comment> \<open>the literal \<^verbatim>\<open>0.5\<close>\<close>
  "fhalf = Flt False 4503599627370496 (- 53)"

definition eps_default :: float64 where
  \<comment> \<open>the literal \<^verbatim>\<open>1e-12\<close>: the double nearest to \<open>1 / 10 ^ 12\<close>\<close>
  "eps_default = Flt False 4951760157141521 (- 92)"

fun is_zero :: "float64 \<Rightarrow> bool" where
  "is_zero (Flt s m e) = (m = 0)"
| "is_zero _ = False"

fun is_finite :: "float64 \<Rightarrow> bool" where
  "is_finite (Flt s m e) = True"
| "is_finite _ = False"

definition signed :: "bool \<Rightarrow> nat \<Rightarrow> int" where
  "signed s m = (if s then - int m else int m)"

fun float_mul :: "float64 \<Rightarrow> float64 \<Rightarrow> float64" where
  "float_mul FNaN _ = FNaN"
| "float_mul _ FNaN = FNaN"
| "float_mul (FInf s) (FInf t) = FInf (s \<noteq> t)"
| "float_mul (FInf s) (Flt t m e) = (if m = 0 then FNaN else FInf (s \<noteq> t))"
| "float_mul (Flt s m e) (FInf t) = (if m = 0 then FNaN else FInf (s \<noteq> t))"
| "float_mul (Flt s m e) (Flt t k g) = round64 (s \<noteq> t) (m * k) 1 (e + g)"

fun float_add :: "float64 \<Rightarrow> float64 \<Rightarrow> float64" where
  \<comment> \<open>a zero operand leaves the other one; otherwise the exact sum, on the smaller exponent,
      is rounded\<close>
  "float_add FNaN _ = FNaN"
| "float_add _ FNaN = FNaN"
| "float_add (FInf s) (FInf t) = (if s = t then FInf s else FNaN)"
| "float_add (FInf s) (Flt t m e) = FInf s"
| "float_add (Flt s m e) (FInf t) = FInf t"
| "float_add (Flt s m e) (Flt t k g) =
     (if m = 0 \<and> k = 0 then Flt (s \<and> t) 0 (- 1074)
      else if m = 0 then round64 t k 1 g
      else if k = 0 then round64 s m 1 e
      else
        let c = min e g;
            N = signed s m * 2 ^ nat (e - c) + signed t k * 2 ^ nat (g - c)
        in if N = 0 then Flt False 0 (- 1074)
           else round64 (N < 0) (nat \<bar>N\<bar>) 1 c)"

fun float_lt :: "float64 \<Rightarrow> float64 \<Rightarrow> bool" where
  "float_lt FNaN _ = False"
| "float_lt _ FNaN = False"
| "float_lt (FInf s) (FInf t) = (s \<and> \<not> t)"
| "float_lt (FInf s) (Flt t m e) = s"
| "float_lt (Flt s m e) (FInf t) = (\<not> t)"
| "float_lt (Flt s m e) (Flt t k g) =
     (let c = min e g
      in signed s m * 2 ^ nat (e - c) < signed t k * 2 ^ nat (g - c))"

fun float_truediv :: "float64 \<Rightarrow> float64 \<Rightarrow> error + float64" where
  \<comment> \<open>\<^verbatim>\<open>x / y\<close> on two floats: \<^verbatim>\<open>ZeroDivisionError\<close> when \<open>y\<close> is a zero\<close>
  "float_truediv x (Flt t k g) =
     (if k = 0 then Inl ZeroDivisionError
      else case x of
             FNaN \<Rightarrow> Inr FNaN
           | FInf s \<Rightarrow> Inr (FInf (s \<noteq> t))
           | Flt s m e \<Rightarrow> Inr (round64 (s \<noteq> t) m k (e - g)))"
| "float_truediv x FNaN = Inr FNaN"
| "float_truediv x (FInf t) =
     (case x of
        Flt s m e \<Rightarrow> Inr (Flt (s \<noteq> t) 0 (- 1074))
      | _ \<Rightarrow> Inr FNaN)"

fun isqrt_aux :: "nat \<Rightarrow> nat \<Rightarrow> nat \<Rightarrow> nat" where
  \<comment> \<open>the bits of the integer square root of \<open>n\<close>, from bit \<open>k - 1\<close> down\<close>
  "isqrt_aux 0 n r = r"
| "isqrt_aux (Suc k) n r =
     (let c = r + 2 ^ k in if c * c \<le> n then isqrt_aux k n c else isqrt_aux k n r)"

definition isqrt :: "nat \<Rightarrow> nat" where
  "isqrt n = isqrt_aux (bitlen n) n 0"

fun math_sqrt :: "float64 \<Rightarrow> error + float64" where
  \<comment> \<open>\<^verbatim>\<open>math.sqrt\<close>: the integer square root \<open>r\<close> of the mantissa scaled to more than 110 bits;
      when it is not exact, \<open>r + 1 / 2\<close> rounds as the square root does\<close>
  "math_sqrt FNaN = Inr FNaN"
| "math_sqrt (FInf s) = (if s then Inl (ValueError BuiltinValueError) else Inr (FInf False))"
| "math_sqrt (Flt s m e) =
     (if m = 0 then Inr (Flt s 0 (- 1074))
      else if s then Inl (ValueError BuiltinValueError)
      else
        let M = (if even e then m * 2 ^ 110 else m * 2 ^ 111);
            E = (if even e then e - 110 else e - 111);
            r = isqrt M
        in if r * r = M then Inr (round64 False r 1 (E div 2))
           else Inr (round64 False (2 * r + 1) 2 (E div 2)))"

fun math_floor :: "float64 \<Rightarrow> error + int" where
  \<comment> \<open>\<^verbatim>\<open>math.floor\<close>: \<^verbatim>\<open>ValueError\<close> on NaN, \<^verbatim>\<open>OverflowError\<close> on an infinity\<close>
  "math_floor FNaN = Inl (ValueError BuiltinValueError)"
| "math_floor (FInf s) = Inl OverflowError"
| "math_floor (Flt s m e) =
     (if 0 \<le> e then Inr (signed s m * 2 ^ nat e)
      else Inr (signed s m div 2 ^ nat (- e)))"

definition float_of_int :: "int \<Rightarrow> error + float64" where
  \<comment> \<open>\<^verbatim>\<open>float(i)\<close>, and the conversion of an int operand of a float operation\<close>
  "float_of_int i =
     (case round64 (i < 0) (nat \<bar>i\<bar>) 1 0 of
        FInf s \<Rightarrow> Inl OverflowError
      | x \<Rightarrow> Inr x)"

definition int_truediv :: "int \<Rightarrow> int \<Rightarrow> error + float64" where
  \<comment> \<open>\<^verbatim>\<open>a / b\<close> on two ints: the correctly rounded quotient\<close>
  "int_truediv a b =
     (if b = 0 then Inl ZeroDivisionError
      else case round64 ((a < 0) \<noteq> (b < 0)) (nat \<bar>a\<bar>) (nat \<bar>b\<bar>) 0 of
             FInf s \<Rightarrow> Inl OverflowError
           | x \<Rightarrow> Inr x)"

fun astype_float32 :: "float64 \<Rightarrow> float64" where
  \<comment> \<open>the value of a double after \<^verbatim>\<open>astype('float32')\<close>, read back as a Python float\<close>
  "astype_float32 (Flt s m e) =
     (case round32 s m 1 e of
        Flt s' m' e' \<Rightarrow> round64 s' m' 1 e'
      | x \<Rightarrow> x)"
| "astype_float32 x = x"

section \<open>Python values\<close>

text \<open>
  The object graphs that \<^verbatim>\<open>pickle.load\<close> hands to the script: \<^verbatim>\<open>None\<close>, booleans, ints, floats,
  strings, lists, tuples, dicts (association lists in insertion order) and one-dimensional
  float64 ndarrays.  Strings are byte strings (ASCII or UTF-8, whose lexicographic order is the
  order of the code points).
\<close>

datatype pyval =
    PNone
  | PBool bool
  | PInt int
  | PFloat float64
  | PStr string
  | PList "pyval list"
  | PTuple "pyval list"
  | PDict "(pyval \<times> pyval) list"
  | PArray "float64 list"

text \<open>
  Two builtins are parameters: the \<^verbatim>\<open>str\<close> of a float or of a container (its \<^verbatim>\<open>repr\<close>), and the
  parsing of a string by \<^verbatim>\<open>float\<close> (\<open>None\<close> when Python raises \<^verbatim>\<open>ValueError\<close>).
\<close>

record builtins =
  repr_of :: "pyval \<Rightarrow> string"
  float_of_str :: "string \<Rightarrow> float64 option"

definition plain_builtins :: builtins where
  \<comment> \<open>for graphs whose identifiers are strings or ints and whose vectors hold numbers:
      there neither function is called\<close>
  "plain_builtins = \<lparr>repr_of = (\<lambda>v. ''<object>''), float_of_str = (\<lambda>s. None)\<rparr>"

definition digit_char :: "nat \<Rightarrow> char" where
  "digit_char d = ''0123456789'' ! d"

fun str_nat :: "nat \<Rightarrow> string" where
  "str_nat n = (if n < 10 then [digit_char n] else str_nat (n div 10) @ [digit_char (n mod 10)])"

declare str_nat.simps [simp del]

definition str_int :: "int \<Rightarrow> string" where
  "str_int i = (if i < 0 then CHR ''-'' # str_nat (nat (- i)) else str_nat (nat i))"

fun py_str :: "builtins \<Rightarrow> pyval \<Rightarrow> string" where
  "py_str B (PStr s) = s"
| "py_str B (PInt i) = str_int i"
| "py_str B (PBool b) = (if b then ''True'' else ''False'')"
| "py_str B PNone = ''None''"
| "py_str B v = repr_of B v"

fun truthy :: "pyval \<Rightarrow> error + bool" where
  \<comment> \<open>\<^verbatim>\<open>bool(v)\<close>; the truth value of an ndarray of more than one element is a \<^verbatim>\<open>ValueError\<close>
      (an empty ndarray is taken as false, as NumPy did before it made that an error too)\<close>
  "truthy PNone = Inr False"
| "truthy (PBool b) = Inr b"
| "truthy (PInt i) = Inr (i \<noteq> 0)"
| "truthy (PFloat x) = Inr (\<not> is_zero x)"
| "truthy (PStr s) = Inr (s \<noteq> [])"
| "truthy (PList xs) = Inr (xs \<noteq> [])"
| "truthy (PTuple xs) = Inr (xs \<noteq> [])"
| "truthy (PDict kvs) = Inr (kvs \<noteq> [])"
| "truthy (PArray []) = Inr False"
| "truthy (PArray [x]) = Inr (\<not> is_zero x)"
| "truthy (PArray (x # y # zs)) = Inl (ValueError BuiltinValueError)"

fun is_array_like :: "pyval \<Rightarrow> bool" where
  \<comment> \<open>\<^verbatim>\<open>isinstance(x, (list, tuple)) or (np is not None and isinstance(x, np.ndarray))\<close>\<close>
  "is_array_like (PList xs) = True"
| "is_array_like (PTuple xs) = True"
| "is_array_like (PArray xs) = True"
| "is_array_like _ = False"

definition dict_get :: "(pyval \<times> pyval) list \<Rightarrow> string \<Rightarrow> pyval" where
  \<comment> \<open>\<^verbatim>\<open>d.get(k)\<close>\<close>
  "dict_get d k = (case map_of d (PStr k) of None \<Rightarrow> PNone | Some v \<Rightarrow> v)"

fun or_chain :: "pyval list \<Rightarrow> pyval \<Rightarrow> error + pyval" where
  \<comment> \<open>\<^verbatim>\<open>a1 or a2 or ... or d\<close>: the first operand that is true, else the last one\<close>
  "or_chain [] d = Inr d"
| "or_chain (a # as) d =
     (case truthy a of
        Inl e \<Rightarrow> Inl e
      | Inr t \<Rightarrow> if t then Inr a else or_chain as d)"

section \<open>The functions of \<^verbatim>\<open>convert_embeddings_pkl_to_json.py\<close>\<close>

record 'v item =
  ident :: string
  vector :: 'v

record document =
  version :: int
  dimension :: int
  count :: int
  embeddings :: "float64 list item list"

record args =
  precision :: nat
  max_items :: "int option"
  sort_flag :: bool
  normalize_flag :: bool

fun map_err :: "('a \<Rightarrow> error + 'b) \<Rightarrow> 'a list \<Rightarrow> error + 'b list" where
  \<comment> \<open>a list comprehension whose element expression may raise\<close>
  "map_err f [] = Inr []"
| "map_err f (x # xs) =
     (case f x of
        Inl e \<Rightarrow> Inl e
      | Inr y \<Rightarrow> (case map_err f xs of Inl e \<Rightarrow> Inl e | Inr ys \<Rightarrow> Inr (y # ys)))"

definition detect_dimension :: "float64 list \<Rightarrow> int" where
  "detect_dimension vec = int (length vec)"

definition py_sum :: "float64 list \<Rightarrow> float64" where
  \<comment> \<open>\<^verbatim>\<open>sum\<close> of floats, accumulated from the left starting at \<^verbatim>\<open>0\<close> (CPython from 3.12 on
      also compensates the rounding errors of the running sum)\<close>
  "py_sum xs = foldl float_add fzero xs"

definition norm_of :: "float64 list \<Rightarrow> error + float64" where
  \<comment> \<open>\<^verbatim>\<open>math.sqrt(sum(x*x for x in arr))\<close>\<close>
  "norm_of arr = math_sqrt (py_sum (map (\<lambda>x. float_mul x x) arr))"

definition normalize_vector :: "float64 list \<Rightarrow> float64 \<Rightarrow> error + float64 list" where
  "normalize_vector v eps =
     (case norm_of v of
        Inl e \<Rightarrow> Inl e
      | Inr nrm \<Rightarrow>
          if float_lt nrm eps then Inr v
          else map_err (\<lambda>x. float_truediv x nrm) v)"

definition round_component :: "nat \<Rightarrow> float64 \<Rightarrow> error + float64" where
  \<comment> \<open>\<^verbatim>\<open>math.floor(x * factor + 0.5) / factor\<close> with \<^verbatim>\<open>factor = 10 ** precision\<close>\<close>
  "round_component p x =
     (case float_of_int (10 ^ p) of
        Inl e \<Rightarrow> Inl e
      | Inr F \<Rightarrow>
          (case math_floor (float_add (float_mul x F) fhalf) of
             Inl e \<Rightarrow> Inl e
           | Inr k \<Rightarrow> int_truediv k (10 ^ p)))"

definition round_vector :: "float64 list \<Rightarrow> nat \<Rightarrow> error + float64 list" where
  "round_vector v p = map_err (round_component p) v"

fun extract_entry :: "builtins \<Rightarrow> pyval \<times> pyval \<Rightarrow> pyval item list" where
  \<comment> \<open>the body of the loop over \<^verbatim>\<open>obj.items()\<close>: the pairs appended for one entry\<close>
  "extract_entry B (k, PDict d) =
     (case map_of d (PStr ''embedding'') of
        Some x \<Rightarrow> [\<lparr>ident = py_str B k, vector = x\<rparr>]
      | None \<Rightarrow>
          (case map_of d (PStr ''vector'') of
             Some x \<Rightarrow> [\<lparr>ident = py_str B k, vector = x\<rparr>]
           | None \<Rightarrow>
               (case filter is_array_like (map snd d) of
                  [] \<Rightarrow> []
                | x # xs \<Rightarrow> [\<lparr>ident = py_str B k, vector = x\<rparr>])))"
| "extract_entry B (k, v) =
     (if is_array_like v then [\<lparr>ident = py_str B k, vector = v\<rparr>] else [])"

fun extract_dict :: "builtins \<Rightarrow> (pyval \<times> pyval) list \<Rightarrow> pyval item list \<Rightarrow> pyval item list" where
  "extract_dict B [] items = items"
| "extract_dict B (kv # kvs) items = extract_dict B kvs (items @ extract_entry B kv)"

fun extract_element :: "builtins \<Rightarrow> pyval \<Rightarrow> pyval item list \<Rightarrow> error + pyval item list" where
  \<comment> \<open>the body of the loop over a list: \<open>items\<close> after the element \<open>el\<close>\<close>
  "extract_element B (PDict el) items =
     (case or_chain [dict_get el ''id'', dict_get el ''name'', dict_get el ''label'']
             (PStr (''item_'' @ str_nat (length items))) of
        Inl e \<Rightarrow> Inl e
      | Inr vid \<Rightarrow>
          (case or_chain [dict_get el ''embedding''] (dict_get el ''vector'') of
             Inl e \<Rightarrow> Inl e
           | Inr vec \<Rightarrow>
               if vec \<noteq> PNone then Inr (items @ [\<lparr>ident = py_str B vid, vector = vec\<rparr>])
               else Inr items))"
| "extract_element B (PList [label, vec]) items =
     Inr (items @ [\<lparr>ident = py_str B label, vector = vec\<rparr>])"
| "extract_element B (PTuple [label, vec]) items =
     Inr (items @ [\<lparr>ident = py_str B label, vector = vec\<rparr>])"
| "extract_element B el items = Inr items"

fun extract_list :: "builtins \<Rightarrow> pyval list \<Rightarrow> pyval item list \<Rightarrow> error + pyval item list" where
  "extract_list B [] items = Inr items"
| "extract_list B (el # els) items =
     (case extract_element B el items of
        Inl e \<Rightarrow> Inl e
      | Inr items' \<Rightarrow> extract_list B els items')"

fun extract_items :: "builtins \<Rightarrow> pyval \<Rightarrow> error + pyval item list" where
  "extract_items B (PDict kvs) = Inr (extract_dict B kvs [])"
| "extract_items B (PList els) = extract_list B els []"
| "extract_items B obj = Inl (ValueError StructureNotSupported)"

fun py_float :: "builtins \<Rightarrow> pyval \<Rightarrow> error + float64" where
  \<comment> \<open>\<^verbatim>\<open>float(x)\<close>\<close>
  "py_float B (PFloat x) = Inr x"
| "py_float B (PInt i) = float_of_int i"
| "py_float B (PBool b) = Inr (if b then fone else fzero)"
| "py_float B (PStr s) =
     (case float_of_str B s of None \<Rightarrow> Inl (ValueError BuiltinValueError) | Some x \<Rightarrow> Inr x)"
| "py_float B (PArray [x]) = Inr x"
| "py_float B v = Inl TypeError"

fun coerce_vector :: "builtins \<Rightarrow> pyval \<Rightarrow> error + float64 list" where
  "coerce_vector B (PArray xs) = Inr (map astype_float32 xs)"
| "coerce_vector B (PList xs) = map_err (py_float B) xs"
| "coerce_vector B (PTuple xs) = map_err (py_float B) xs"
| "coerce_vector B v = Inl (ValueError VectorFormatNotSupported)"

definition slice_upto :: "'a list \<Rightarrow> int \<Rightarrow> 'a list" where
  \<comment> \<open>\<^verbatim>\<open>xs[:n]\<close>: a negative \<open>n\<close> counts from the end\<close>
  "slice_upto xs n = (if 0 \<le> n then take (nat n) xs else take (nat (int (length xs) + n)) xs)"

fun process :: "builtins \<Rightarrow> args \<Rightarrow> pyval item list \<Rightarrow> float64 list item list \<times> int option
    \<Rightarrow> error + float64 list item list \<times> int option" where
  \<comment> \<open>the loop \<^verbatim>\<open>for it in items\<close> of \<^verbatim>\<open>main\<close>, on the state \<^verbatim>\<open>(processed, dimension)\<close>\<close>
  "process B a [] st = Inr st"
| "process B a (it # its) (processed, dimn) =
     (case coerce_vector B (vector it) of
        Inl e \<Rightarrow> Inl e
      | Inr vec \<Rightarrow>
          (case (if normalize_flag a then normalize_vector vec eps_default else Inr vec) of
             Inl e \<Rightarrow> Inl e
           | Inr vec' \<Rightarrow>
               (case round_vector vec' (precision a) of
                  Inl e \<Rightarrow> Inl e
                | Inr vec'' \<Rightarrow>
                    process B a its
                      (processed @ [\<lparr>ident = ident it, vector = vec''\<rparr>],
                       (case dimn of None \<Rightarrow> Some (detect_dimension vec'') | Some d \<Rightarrow> Some d)))))"

definition select_items :: "args \<Rightarrow> pyval item list \<Rightarrow> pyval item list" where
  \<comment> \<open>\<^verbatim>\<open>if args.sort: items.sort(key=...)\<close> then \<^verbatim>\<open>if args.max_items: items = items[:args.max_items]\<close>\<close>
  "select_items a items =
     (let items' = (if sort_flag a then sort_key ident items else items)
      in case max_items a of
           None \<Rightarrow> items'
         | Some n \<Rightarrow> if n \<noteq> 0 then slice_upto items' n else items')"

definition main :: "builtins \<Rightarrow> args \<Rightarrow> pyval \<Rightarrow> error + document" where
  \<comment> \<open>\<^verbatim>\<open>main\<close> from the loaded pickle \<open>data\<close> to the document handed to \<^verbatim>\<open>json.dump\<close>\<close>
  "main B a data =
     (case extract_items B data of
        Inl e \<Rightarrow> Inl e
      | Inr items \<Rightarrow>
          if items = [] then Inl (SystemExit 3)
          else
            (case process B a (select_items a items) ([], None) of
               Inl e \<Rightarrow> Inl e
             | Inr (processed, dimn) \<Rightarrow>
                 Inr \<lparr>version = 1,
                      dimension = (case dimn of None \<Rightarrow> 0 | Some d \<Rightarrow> d),
                      count = int (length processed),
                      embeddings = processed\<rparr>))"


text \<open>Floats whose sign bit is clear, and NaN: what a sum of squares can be.\<close>

definition sign_pos :: "float64 \<Rightarrow> bool" where
  "sign_pos x = (case x of Flt s m e \<Rightarrow> \<not> s | FInf s \<Rightarrow> \<not> s | FNaN \<Rightarrow> True)"

text \<open>
  The mathematics of the rounding: powers of two with integer exponents, the integer nearest to
  a real (ties to even), the exponent \<open>expo v\<close> of the unit in the last place of a positive real
  \<open>v\<close>, the real number \<open>rnd v\<close> that \<open>v\<close> rounds to, and the mantissa and exponent pairs that are
  doubles in canonical form.
\<close>

definition pow2 :: "int \<Rightarrow> real" where
  "pow2 e = 2 powi e"

definition rne :: "real \<Rightarrow> int" where
  "rne r =
     (let f = \<lfloor>r\<rfloor>
      in if r - of_int f < 1 / 2 then f
         else if 1 / 2 < r - of_int f then f + 1
         else if even f then f else f + 1)"

definition expo :: "real \<Rightarrow> int" where
  "expo v = max (\<lfloor>log 2 v\<rfloor> - 52) (- 1074)"

definition rnd :: "real \<Rightarrow> real" where
  "rnd v = of_int (rne (v / pow2 (expo v))) * pow2 (expo v)"

definition canonical :: "nat \<Rightarrow> int \<Rightarrow> bool" where
  "canonical m e \<longleftrightarrow> m < 2 ^ 53 \<and> - 1074 \<le> e \<and> e \<le> 971 \<and> (2 ^ 52 \<le> m \<or> e = - 1074)"

text \<open>
  The real value of a finite float; the floats that are doubles in canonical form; rounding
  extended to negative reals and zero; and \<open>rounds_to v r\<close>: the float \<open>r\<close> is the correctly rounded
  \<open>v\<close>, an infinity when the rounded value is beyond the doubles.
\<close>

fun valof :: "float64 \<Rightarrow> real" where
  "valof (Flt s m e) = (if s then - (real m * pow2 e) else real m * pow2 e)"
| "valof _ = 0"

fun is_double :: "float64 \<Rightarrow> bool" where
  "is_double (Flt s m e) = canonical m e"
| "is_double _ = True"

definition rnds :: "real \<Rightarrow> real" where
  "rnds v = (if v = 0 then 0 else if v < 0 then - rnd (- v) else rnd v)"

definition rounds_to :: "real \<Rightarrow> float64 \<Rightarrow> bool" where
  "rounds_to v r \<longleftrightarrow>
     (if \<bar>rnds v\<bar> < pow2 1024 then is_finite r \<and> is_double r \<and> valof r = rnds v
      else r = FInf (v < 0))"

text \<open>
  The reals that are doubles: \<open>\<plusminus> m * 2 ^ e\<close> with \<open>m < 2 ^ 53\<close> and \<open>- 1074 \<le> e\<close>, below \<open>2 ^ 1024\<close>.
\<close>

definition representable :: "real \<Rightarrow> bool" where
  "representable v \<longleftrightarrow>
     (\<exists>m e. \<bar>v\<bar> = real m * pow2 e \<and> m < 2 ^ 53 \<and> - 1074 \<le> e \<and> real m * pow2 e < pow2 1024)"

section \<open>Evaluation rules\<close>

lemma bitlen_0 [simp]: "bitlen 0 = 0"
  by (simp add: bitlen.simps)

lemma bitlen_Suc_0 [simp]: "bitlen (Suc 0) = Suc 0"
  by (simp add: bitlen.simps[of "Suc 0"])

lemma bitlen_1 [simp]: "bitlen 1 = 1"
  by (simp add: bitlen.simps[of 1])

lemma bitlen_Bit0 [simp]: "bitlen (numeral (Num.Bit0 k)) = Suc (bitlen (numeral k))"
  by (simp add: bitlen.simps[of "numeral (Num.Bit0 k)"] numeral_Bit0_div_2)

lemma bitlen_Bit1 [simp]: "bitlen (numeral (Num.Bit1 k)) = Suc (bitlen (numeral k))"
  by (simp add: bitlen.simps[of "numeral (Num.Bit1 k)"] numeral_Bit1_div_2)

lemma isqrt_aux_numeral [simp]:
  "isqrt_aux (numeral k) n r =
     (let c = r + 2 ^ pred_numeral k
      in if c * c \<le> n then isqrt_aux (pred_numeral k) n c else isqrt_aux (pred_numeral k) n r)"
  by (simp add: numeral_eq_Suc)

lemma str_nat_digit [simp]: "n < 10 \<Longrightarrow> str_nat n = [digit_char n]"
  by (simp add: str_nat.simps)

lemmas ev = round64_def round32_def round_core_def rne_div_def signed_def isqrt_def
  float_of_int_def int_truediv_def eps_default_def fhalf_def fone_def fzero_def
  round_vector_def round_component_def normalize_vector_def norm_of_def py_sum_def
  main_def select_items_def slice_upto_def detect_dimension_def plain_builtins_def dict_get_def
  str_int_def digit_char_def

section \<open>Comprehensions and the processing loop\<close>

lemma map_err_Cons_Inr:
  "map_err f (x # xs) = Inr ys \<longleftrightarrow> (\<exists>y zs. ys = y # zs \<and> f x = Inr y \<and> map_err f xs = Inr zs)"
  by (cases "f x"; cases "map_err f xs") auto

lemma map_err_list_all2: "map_err f xs = Inr ys \<longleftrightarrow> list_all2 (\<lambda>x y. f x = Inr y) xs ys"
proof (induction xs arbitrary: ys)
  case Nil
  show ?case by auto
next
  case (Cons x xs)
  show ?case
    unfolding map_err_Cons_Inr list_all2_Cons1 Cons.IH by blast
qed

lemma map_err_length: "map_err f xs = Inr ys \<Longrightarrow> length ys = length xs"
  by (simp add: map_err_list_all2 list_all2_lengthD)

lemma map_err_Inl: "map_err f xs = Inl e \<Longrightarrow> \<exists>x\<in>set xs. f x = Inl e"
  by (induction xs) (auto split: sum.splits)

lemma process_idents:
  "process B a its (ps, d) = Inr (ps', d') \<Longrightarrow> map ident ps' = map ident ps @ map ident its"
proof (induction its arbitrary: ps d)
  case Nil
  then show ?case by simp
next
  case (Cons it its)
  then show ?case
    by (auto split: sum.splits if_splits)
qed

lemma process_dimension:
  "process B a its (ps, d) = Inr (ps', d') \<Longrightarrow>
   (case d of None \<Rightarrow> ps = [] | Some n \<Rightarrow> ps \<noteq> [] \<and> n = int (length (vector (hd ps)))) \<Longrightarrow>
   (case d' of None \<Rightarrow> ps' = [] | Some n \<Rightarrow> ps' \<noteq> [] \<and> n = int (length (vector (hd ps'))))"
proof (induction its arbitrary: ps d)
  case Nil
  then show ?case by auto
next
  case (Cons it its)
  from Cons.prems(1) obtain vec'' where
    step: "process B a its (ps @ [\<lparr>ident = ident it, vector = vec''\<rparr>],
             (case d of None \<Rightarrow> Some (detect_dimension vec'') | Some n \<Rightarrow> Some n)) = Inr (ps', d')"
    by (auto split: sum.splits if_splits)
  show ?case
    by (rule Cons.IH[OF step]) (use Cons.prems(2) in \<open>auto simp: detect_dimension_def split: option.splits\<close>)
qed

section \<open>The output document\<close>

text \<open>
  C9.  Every successful run of the pipeline yields a document whose version is 1, whose count is
  the length of its embeddings, and whose dimension is the length of the first record's vector
  whenever there is a record.
\<close>

theorem main_document_header:
  assumes "main B a data = Inr doc"
  shows "version doc = 1 \<and> count doc = int (length (embeddings doc)) \<and>
         (embeddings doc \<noteq> [] \<longrightarrow> dimension doc = int (length (vector (hd (embeddings doc)))))"
proof -
  from assms obtain items ps d where
    p: "process B a (select_items a items) ([], None) = Inr (ps, d)" and
    doc: "doc = \<lparr>version = 1, dimension = (case d of None \<Rightarrow> 0 | Some n \<Rightarrow> n),
                 count = int (length ps), embeddings = ps\<rparr>"
    by (auto simp: main_def split: sum.splits if_splits)
  from process_dimension[OF p] have
    "case d of None \<Rightarrow> ps = [] | Some n \<Rightarrow> ps \<noteq> [] \<and> n = int (length (vector (hd ps)))"
    by simp
  with doc show ?thesis
    by (auto split: option.splits)
qed

theorem main_document_header_witness:
  "main plain_builtins \<lparr>precision = 0, max_items = None, sort_flag = False, normalize_flag = False\<rparr>
     (PList [PTuple [PStr ''a'', PList [PInt 1]]])
   = Inr \<lparr>version = 1, dimension = 1, count = 1,
          embeddings = [\<lparr>ident = ''a'', vector = [Flt False 4503599627370496 (- 52)]\<rparr>]\<rparr>
   \<and> version \<lparr>version = 1, dimension = 1, count = 1,
          embeddings = [\<lparr>ident = ''a'', vector = [Flt False 4503599627370496 (- 52)]\<rparr>]\<rparr> = 1
   \<and> count \<lparr>version = 1, dimension = 1, count = 1,
          embeddings = [\<lparr>ident = ''a'', vector = [Flt False 4503599627370496 (- 52)]\<rparr>]\<rparr> = 1
   \<and> dimension \<lparr>version = 1, dimension = 1, count = 1,
          embeddings = [\<lparr>ident = ''a'', vector = [Flt False 4503599627370496 (- 52)]\<rparr>]\<rparr> = 1"
proof -
  have h: "main plain_builtins \<lparr>precision = 0, max_items = None, sort_flag = False, normalize_flag = False\<rparr>
     (PList [PTuple [PStr ''a'', PList [PInt 1]]])
   = Inr \<lparr>version = 1, dimension = 1, count = 1,
          embeddings = [\<lparr>ident = ''a'', vector = [Flt False 4503599627370496 (- 52)]\<rparr>]\<rparr>"
    by (simp add: ev)
  show ?thesis
    using main_document_header[OF h] h by simp
qed

section \<open>Sorting and truncation\<close>

lemma process_length:
  "process B a its (ps, d) = Inr (ps', d') \<Longrightarrow> length ps' = length ps + length its"
  using process_idents[of B a its ps d ps' d'] 
  by (metis length_append length_map)

lemma main_Inr_cases:
  assumes "main B a data = Inr doc"
  obtains items ps d where "extract_items B data = Inr items" "items \<noteq> []"
    "process B a (select_items a items) ([], None) = Inr (ps, d)" "embeddings doc = ps"
  using assms by (auto simp: main_def split: sum.splits if_splits)




section \<open>Empty results\<close>

text \<open>
  C3 (amended).  A graph that is neither a dict nor a list fails with the \<^verbatim>\<open>ValueError\<close> of
  \<^verbatim>\<open>extract_items\<close>; a dict or list from which no pair is extracted ends in \<^verbatim>\<open>sys.exit(3)\<close>;
  and a successful run has at least one record provided \<^verbatim>\<open>max_items\<close> is unset or not negative.
\<close>

theorem main_never_empty:
  "((\<forall>kvs. data \<noteq> PDict kvs) \<and> (\<forall>els. data \<noteq> PList els)
      \<longrightarrow> main B a data = Inl (ValueError StructureNotSupported))
   \<and> (extract_items B data = Inr [] \<longrightarrow> main B a data = Inl (SystemExit 3))
   \<and> (main B a data = Inr doc \<and> (\<forall>n. max_items a = Some n \<longrightarrow> 0 \<le> n) \<longrightarrow> embeddings doc \<noteq> [])"
proof (intro conjI impI)
  assume "(\<forall>kvs. data \<noteq> PDict kvs) \<and> (\<forall>els. data \<noteq> PList els)"
  then have "extract_items B data = Inl (ValueError StructureNotSupported)"
    by (cases data) auto
  then show "main B a data = Inl (ValueError StructureNotSupported)"
    by (simp add: main_def)
next
  assume "extract_items B data = Inr []"
  then show "main B a data = Inl (SystemExit 3)"
    by (simp add: main_def)
next
  assume h: "main B a data = Inr doc \<and> (\<forall>n. max_items a = Some n \<longrightarrow> 0 \<le> n)"
  then obtain items ps d where i: "items \<noteq> []" and
    p: "process B a (select_items a items) ([], None) = Inr (ps, d)" and e: "embeddings doc = ps"
    by (auto elim!: main_Inr_cases)
  have "length (if sort_flag a then sort_key ident items else items) = length items"
    by simp
  with i h have "select_items a items \<noteq> []"
    by (cases "max_items a") (auto simp: select_items_def slice_upto_def)
  with process_length[OF p] e show "embeddings doc \<noteq> []"
    by auto
qed

theorem main_never_empty_witness:
  "main plain_builtins \<lparr>precision = 0, max_items = Some 1, sort_flag = False, normalize_flag = False\<rparr> (PInt 5)
     = Inl (ValueError StructureNotSupported)
   \<and> main plain_builtins \<lparr>precision = 0, max_items = Some 1, sort_flag = False, normalize_flag = False\<rparr> (PDict [])
     = Inl (SystemExit 3)
   \<and> main plain_builtins \<lparr>precision = 0, max_items = Some 1, sort_flag = False, normalize_flag = False\<rparr>
        (PList [PTuple [PStr ''a'', PList [PInt 1]]])
     = Inr \<lparr>version = 1, dimension = 1, count = 1,
          embeddings = [\<lparr>ident = ''a'', vector = [Flt False 4503599627370496 (- 52)]\<rparr>]\<rparr>
   \<and> [\<lparr>ident = ''a'', vector = [Flt False 4503599627370496 (- 52)]\<rparr>] \<noteq> []"
proof -
  let ?a = "\<lparr>precision = 0, max_items = Some 1, sort_flag = False, normalize_flag = False\<rparr>"
  have h: "main plain_builtins ?a (PList [PTuple [PStr ''a'', PList [PInt 1]]])
     = Inr \<lparr>version = 1, dimension = 1, count = 1,
          embeddings = [\<lparr>ident = ''a'', vector = [Flt False 4503599627370496 (- 52)]\<rparr>]\<rparr>"
    by (simp add: ev)
  have e: "extract_items plain_builtins (PDict []) = Inr []"
    by simp
  from main_never_empty[of "PInt 5" plain_builtins ?a]
    main_never_empty[of "PDict []" plain_builtins ?a] e
    main_never_empty[of "PList [PTuple [PStr ''a'', PList [PInt 1]]]" plain_builtins ?a] h
  show ?thesis by simp
qed

text \<open>
  With \<^verbatim>\<open>--max-items -1\<close> the slice \<^verbatim>\<open>items[:-1]\<close> of a single extracted pair is empty, and the
  run succeeds with no record at all.
\<close>

theorem main_negative_max_items_counterexample:
  "main plain_builtins \<lparr>precision = 0, max_items = Some (- 1), sort_flag = False, normalize_flag = False\<rparr>
     (PList [PTuple [PStr ''a'', PList [PInt 1]]])
   = Inr \<lparr>version = 1, dimension = 0, count = 0, embeddings = []\<rparr>"
  by (simp add: ev)

section \<open>Coercion\<close>

lemma py_float_errors:
  "py_float B x = Inl e \<Longrightarrow> e = ValueError BuiltinValueError \<or> e = TypeError \<or> e = OverflowError"
  by (cases "(B, x)" rule: py_float.cases)
     (auto simp: float_of_int_def split: option.splits float64.splits)

text \<open>
  C4 (amended).  On a list or tuple \<^verbatim>\<open>coerce_vector\<close> returns the \<^verbatim>\<open>float\<close> of every element when
  each conversion succeeds; on an ndarray it returns the elements cast to 32-bit floats; on any
  other value it raises its own \<^verbatim>\<open>ValueError\<close>.  An element that \<^verbatim>\<open>float\<close> rejects raises what
  \<^verbatim>\<open>float\<close> raises for it: \<^verbatim>\<open>ValueError\<close> for a string that is not a number, \<^verbatim>\<open>TypeError\<close> for
  \<^verbatim>\<open>None\<close> or a container, \<^verbatim>\<open>OverflowError\<close> for an int beyond the doubles.
\<close>

theorem coerce_vector_cases:
  "(coerce_vector B (PList xs) = Inr ys \<longleftrightarrow> list_all2 (\<lambda>x y. py_float B x = Inr y) xs ys)
   \<and> (coerce_vector B (PTuple xs) = Inr ys \<longleftrightarrow> list_all2 (\<lambda>x y. py_float B x = Inr y) xs ys)
   \<and> coerce_vector B (PArray zs) = Inr (map astype_float32 zs)
   \<and> (\<not> is_array_like v \<longrightarrow> coerce_vector B v = Inl (ValueError VectorFormatNotSupported))
   \<and> (coerce_vector B (PList xs) = Inl e \<or> coerce_vector B (PTuple xs) = Inl e \<longrightarrow>
        (\<exists>x\<in>set xs. py_float B x = Inl e)
        \<and> (e = ValueError BuiltinValueError \<or> e = TypeError \<or> e = OverflowError))"
proof (intro conjI impI)
  show "\<not> is_array_like v \<Longrightarrow> coerce_vector B v = Inl (ValueError VectorFormatNotSupported)"
    by (cases v) auto
next
  assume "coerce_vector B (PList xs) = Inl e \<or> coerce_vector B (PTuple xs) = Inl e"
  then have "map_err (py_float B) xs = Inl e" by auto
  then show x: "\<exists>x\<in>set xs. py_float B x = Inl e" by (rule map_err_Inl)
  then show "e = ValueError BuiltinValueError \<or> e = TypeError \<or> e = OverflowError"
    using py_float_errors by blast
qed (simp_all add: map_err_list_all2)

theorem coerce_vector_cases_witness:
  "coerce_vector plain_builtins (PList [PFloat fone]) = Inr [fone]
   \<and> coerce_vector plain_builtins PNone = Inl (ValueError VectorFormatNotSupported)
   \<and> coerce_vector plain_builtins (PList [PNone]) = Inl TypeError
   \<and> py_float plain_builtins PNone = Inl TypeError"
proof -
  have n: "\<not> is_array_like PNone" by simp
  have t: "coerce_vector plain_builtins (PList [PNone]) = Inl TypeError" by simp
  from coerce_vector_cases[of plain_builtins "[PFloat fone]" "[fone]" "[]" PNone TypeError]
    coerce_vector_cases[of plain_builtins "[PNone]" "[]" "[]" PNone TypeError] n t
  show ?thesis by simp
qed

text \<open>
  A \<^verbatim>\<open>None\<close> inside a list is a \<^verbatim>\<open>TypeError\<close>, not the \<^verbatim>\<open>ValueError\<close> raised for an unsupported
  vector type.
\<close>

theorem coerce_vector_type_error_counterexample:
  "coerce_vector plain_builtins (PList [PNone]) = Inl TypeError
   \<and> TypeError \<noteq> ValueError VectorFormatNotSupported"
  by simp

section \<open>Extraction\<close>












text \<open>
  C5.  A dict element of a list whose \<^verbatim>\<open>'embedding'\<close> is an ndarray of two elements: the
  expression \<^verbatim>\<open>el.get('embedding') or el.get('vector')\<close> takes the truth value of the array, and
  \<^verbatim>\<open>extract_items\<close> ends in a \<^verbatim>\<open>ValueError\<close> instead of emitting the pair.
\<close>

theorem extract_items_ndarray_truth_value:
  "extract_items plain_builtins
     (PList [PDict [(PStr ''id'', PStr ''a''), (PStr ''embedding'', PArray [fone, fone])]])
   = Inl (ValueError BuiltinValueError)"
  by (simp add: ev)

section \<open>Normalisation\<close>

lemma round_core_sign:
  "(\<exists>m e. round_core p emin emax s n d E = Flt s m e) \<or> round_core p emin emax s n d E = FInf s"
  by (simp add: round_core_def Let_def)

lemma sign_pos_round64 [simp]: "sign_pos (round64 False n d E)"
  using round_core_sign[of 53 "- 1074" 971 False n d E]
  by (auto simp: round64_def sign_pos_def)

lemma sign_pos_mul_self: "sign_pos (float_mul x x)"
  by (cases x) (simp_all add: sign_pos_def[of "FInf _"] sign_pos_def[of FNaN])

lemma sign_pos_add: "sign_pos x \<Longrightarrow> sign_pos y \<Longrightarrow> sign_pos (float_add x y)"
proof (cases "(x, y)" rule: float_add.cases)
  case (6 s m e t k g)
  assume "sign_pos x" "sign_pos y"
  with 6 have st: "\<not> s" "\<not> t" by (simp_all add: sign_pos_def)
  let ?N = "signed s m * 2 ^ nat (e - min e g) + signed t k * 2 ^ nat (g - min e g)"
  from st have "0 \<le> ?N"
    by (simp add: signed_def)
  then have "\<not> ?N < 0" by simp
  with 6 st show ?thesis
    by (simp add: Let_def sign_pos_def[of "Flt _ _ _"])
qed (auto simp: sign_pos_def)

lemma sign_pos_foldl:
  "sign_pos a \<Longrightarrow> \<forall>x\<in>set xs. sign_pos x \<Longrightarrow> sign_pos (foldl float_add a xs)"
  by (induction xs arbitrary: a) (auto intro: sign_pos_add)

lemma sign_pos_py_sum_squares: "sign_pos (py_sum (map (\<lambda>x. float_mul x x) v))"
proof -
  have "sign_pos fzero" by (simp add: fzero_def sign_pos_def)
  then show ?thesis
    unfolding py_sum_def by (rule sign_pos_foldl) (simp add: sign_pos_mul_self)
qed

lemma math_sqrt_sign_pos: "sign_pos x \<Longrightarrow> \<exists>y. math_sqrt x = Inr y"
  by (cases x) (auto simp: sign_pos_def Let_def)

lemma norm_of_total: "\<exists>nrm. norm_of v = Inr nrm"
  unfolding norm_of_def by (rule math_sqrt_sign_pos) (rule sign_pos_py_sum_squares)

lemma float_truediv_nonzero: "\<not> is_zero y \<Longrightarrow> \<exists>z. float_truediv x y = Inr z"
  by (cases y; cases x) auto

lemma map_err_total: "\<forall>x\<in>set xs. \<exists>y. f x = Inr y \<Longrightarrow> \<exists>ys. map_err f xs = Inr ys"
  by (induction xs) (auto split: sum.splits)

lemma float_lt_zero: "is_zero x \<Longrightarrow> float_lt x y = float_lt fzero y"
  by (cases x; cases y) (auto simp: fzero_def signed_def Let_def zero_less_mult_iff mult_less_0_iff)

lemma float_mul_zero: "is_zero x \<Longrightarrow> float_mul x x = fzero"
  by (cases x) (auto simp: fzero_def round64_def round_core_def)

lemma float_add_zero: "float_add fzero fzero = fzero"
  by (simp add: fzero_def)

lemma py_sum_zeros: "\<forall>x\<in>set xs. x = fzero \<Longrightarrow> foldl float_add fzero xs = fzero"
  by (induction xs) (auto simp: float_add_zero)

lemma norm_of_zeros: "\<forall>x\<in>set v. is_zero x \<Longrightarrow> norm_of v = Inr fzero"
proof -
  assume "\<forall>x\<in>set v. is_zero x"
  then have "\<forall>y\<in>set (map (\<lambda>x. float_mul x x) v). y = fzero"
    by (auto simp: float_mul_zero)
  then have "py_sum (map (\<lambda>x. float_mul x x) v) = fzero"
    unfolding py_sum_def by (rule py_sum_zeros)
  then show ?thesis
    by (simp add: norm_of_def fzero_def)
qed

lemma zero_lt_eps_default: "float_lt fzero eps_default"
  by (simp add: fzero_def eps_default_def signed_def)

text \<open>
  C7 (amended).  The norm is always computed.  \<^verbatim>\<open>normalize_vector\<close> returns its input unchanged
  whenever the norm is below \<open>eps\<close>, and with the default \<open>eps\<close> it does so for every vector of
  zeros; otherwise, when \<open>eps\<close> is positive or the norm is not zero, it returns the vector of the
  quotients of the components by the norm.
\<close>

theorem normalize_vector_cases:
  "\<exists>nrm. norm_of v = Inr nrm
     \<and> (float_lt nrm eps \<longrightarrow> normalize_vector v eps = Inr v)
     \<and> (\<not> float_lt nrm eps \<and> (float_lt fzero eps \<or> \<not> is_zero nrm) \<longrightarrow>
          (\<exists>w. normalize_vector v eps = Inr w
                \<and> list_all2 (\<lambda>x y. float_truediv x nrm = Inr y) v w))
     \<and> ((\<forall>x\<in>set v. is_zero x) \<longrightarrow> normalize_vector v eps_default = Inr v)"
proof -
  from norm_of_total obtain nrm where n: "norm_of v = Inr nrm" by blast
  have a: "float_lt nrm eps \<longrightarrow> normalize_vector v eps = Inr v"
    using n by (simp add: normalize_vector_def)
  have b: "\<exists>w. normalize_vector v eps = Inr w \<and> list_all2 (\<lambda>x y. float_truediv x nrm = Inr y) v w"
    if h: "\<not> float_lt nrm eps \<and> (float_lt fzero eps \<or> \<not> is_zero nrm)"
  proof -
    from h have "\<not> is_zero nrm"
      using float_lt_zero[of nrm eps] by auto
    then have "\<forall>x\<in>set v. \<exists>y. float_truediv x nrm = Inr y"
      by (simp add: float_truediv_nonzero)
    from map_err_total[OF this] obtain w where w: "map_err (\<lambda>x. float_truediv x nrm) v = Inr w" ..
    with n h have "normalize_vector v eps = Inr w"
      by (simp add: normalize_vector_def)
    with w show ?thesis
      by (auto simp: map_err_list_all2)
  qed
  have c: "(\<forall>x\<in>set v. is_zero x) \<longrightarrow> normalize_vector v eps_default = Inr v"
    using zero_lt_eps_default by (auto simp: normalize_vector_def norm_of_zeros)
  from n a b c show ?thesis by blast
qed

theorem normalize_vector_cases_witness:
  "normalize_vector [fzero] eps_default = Inr [fzero]
   \<and> norm_of [fone] = Inr fone
   \<and> float_lt fone eps_default = False
   \<and> normalize_vector [fone] eps_default = Inr [fone]"
proof -
  have z: "\<forall>x\<in>set [fzero]. is_zero x" by (simp add: fzero_def)
  from normalize_vector_cases[of "[fzero]" eps_default] z
  have a: "normalize_vector [fzero] eps_default = Inr [fzero]" by blast
  have n: "norm_of [fone] = Inr fone" by (simp add: ev)
  have l: "float_lt fone eps_default = False" by (simp add: ev)
  have d: "float_truediv fone fone = Inr fone" by (simp add: ev)
  from normalize_vector_cases[of "[fone]" eps_default] n l zero_lt_eps_default
  obtain w where w: "normalize_vector [fone] eps_default = Inr w"
    and "list_all2 (\<lambda>x y. float_truediv x fone = Inr y) [fone] w"
    by auto
  with d have "w = [fone]"
    by (auto simp: list_all2_Cons1)
  with a n l w show ?thesis by simp
qed

text \<open>
  With \<open>eps = 0.0\<close> the norm \<open>0.0\<close> of a zero vector is not below \<open>eps\<close>, and the division raises
  \<^verbatim>\<open>ZeroDivisionError\<close>.
\<close>

theorem normalize_vector_zero_eps_counterexample:
  "normalize_vector [fzero] fzero = Inl ZeroDivisionError"
  by (simp add: normalize_vector_def norm_of_def py_sum_def fzero_def signed_def round64_def round_core_def)

lemma normalize_vector_default_total:
  "\<exists>w. normalize_vector v eps_default = Inr w \<and> length w = length v"
proof -
  from norm_of_total obtain nrm where n: "norm_of v = Inr nrm" by blast
  show ?thesis
  proof (cases "float_lt nrm eps_default")
    case True
    with n show ?thesis by (simp add: normalize_vector_def)
  next
    case False
    with zero_lt_eps_default have "\<not> is_zero nrm"
      using float_lt_zero[of nrm eps_default] by auto
    then have "\<forall>x\<in>set v. \<exists>y. float_truediv x nrm = Inr y"
      by (simp add: float_truediv_nonzero)
    from map_err_total[OF this] obtain w where w: "map_err (\<lambda>x. float_truediv x nrm) v = Inr w" ..
    with n False have "normalize_vector v eps_default = Inr w"
      by (simp add: normalize_vector_def)
    with map_err_length[OF w] show ?thesis by simp
  qed
qed

section \<open>Rounding to the nearest double\<close>

lemma pow2_pos [simp]: "0 < pow2 e"
  by (simp add: pow2_def)

lemma pow2_nonneg [simp]: "0 \<le> pow2 e"
  by (simp add: pow2_def)

lemma pow2_neq0 [simp]: "pow2 e \<noteq> 0"
  by (simp add: pow2_def)

lemma pow2_0 [simp]: "pow2 0 = 1"
  by (simp add: pow2_def)

lemma pow2_add: "pow2 (a + b) = pow2 a * pow2 b"
  by (simp add: pow2_def power_int_add)

lemma pow2_minus: "pow2 (- a) = 1 / pow2 a"
  by (simp add: pow2_def power_int_minus_divide)

lemma pow2_diff: "pow2 (a - b) = pow2 a / pow2 b"
  by (simp add: pow2_def power_int_diff)

lemma pow2_nat: "pow2 (int n) = 2 ^ n"
  by (simp add: pow2_def)

lemma pow2_of_nat: "0 \<le> e \<Longrightarrow> pow2 e = 2 ^ nat e"
  by (simp add: pow2_def power_int_nonneg_exp)

lemma pow2_powr: "pow2 e = 2 powr (of_int e)"
  by (simp add: pow2_def powr_real_of_int')

lemma pow2_le_iff [simp]: "pow2 a \<le> pow2 b \<longleftrightarrow> a \<le> b"
  by (simp add: pow2_powr)

lemma pow2_less_iff [simp]: "pow2 a < pow2 b \<longleftrightarrow> a < b"
  by (simp add: pow2_powr)

lemma floor_log2_eq:
  assumes "0 < v"
  shows "\<lfloor>log 2 v\<rfloor> = L \<longleftrightarrow> pow2 L \<le> v \<and> v < pow2 (L + 1)"
proof -
  have a: "pow2 L \<le> v \<longleftrightarrow> of_int L \<le> log 2 v"
    using assms by (simp add: pow2_powr le_log_iff)
  have b: "v < pow2 (L + 1) \<longleftrightarrow> log 2 v < of_int L + 1"
    using assms by (simp add: pow2_powr log_less_iff)
  show ?thesis
    unfolding a b by (auto simp: floor_eq_iff)
qed

lemma bitlen_bounds: "0 < n \<Longrightarrow> 2 ^ (bitlen n - 1) \<le> n \<and> n < 2 ^ bitlen n"
proof (induction n rule: bitlen.induct)
  case (1 n)
  show ?case
  proof (cases "n div 2 = 0")
    case True
    with 1(2) have "n = 1" by (auto simp: div_eq_0_iff)
    then show ?thesis by simp
  next
    case False
    with 1 have ih: "2 ^ (bitlen (n div 2) - 1) \<le> n div 2" "n div 2 < 2 ^ bitlen (n div 2)"
      by auto
    from False have pos: "0 < bitlen (n div 2)"
      by (subst bitlen.simps) simp
    have b: "bitlen n = Suc (bitlen (n div 2))"
      using 1(2) by (subst bitlen.simps) simp
    have h: "2 * (n div 2) \<le> n" "n < 2 * (n div 2) + 2"
      by presburger+
    from ih h have "2 * 2 ^ (bitlen (n div 2) - 1) \<le> n" "n < 2 * 2 ^ bitlen (n div 2)"
      by linarith+
    moreover from pos have "(2::nat) ^ (bitlen n - 1) = 2 * 2 ^ (bitlen (n div 2) - 1)"
      unfolding b by (cases "bitlen (n div 2)") auto
    ultimately show ?thesis
      unfolding b by simp
  qed
qed

lemma bitlen_pos: "0 < n \<Longrightarrow> 0 < bitlen n"
  by (subst bitlen.simps) simp

lemma rne_of_int [simp]: "rne (of_int k) = k"
  by (simp add: rne_def)

lemma rne_bounds: "real_of_int (rne r) - 1 / 2 \<le> r \<and> r \<le> real_of_int (rne r) + 1 / 2"
  unfolding rne_def Let_def by (auto; linarith)

lemma rne_mono: "r \<le> s \<Longrightarrow> rne r \<le> rne s"
proof -
  assume rs: "r \<le> s"
  show ?thesis
  proof (cases "\<lfloor>r\<rfloor> = \<lfloor>s\<rfloor>")
    case True
    with rs show ?thesis
      unfolding rne_def Let_def by auto
  next
    case False
    with rs have lt: "\<lfloor>r\<rfloor> + 1 \<le> \<lfloor>s\<rfloor>"
      using floor_mono[OF rs] by linarith
    have "rne r \<le> \<lfloor>r\<rfloor> + 1" unfolding rne_def Let_def by auto
    moreover have "\<lfloor>s\<rfloor> \<le> rne s" unfolding rne_def Let_def by auto
    ultimately show ?thesis using lt by linarith
  qed
qed

lemma rne_div_rne:
  assumes "0 < d"
  shows "int (rne_div n d) = rne (real n / real d)"
proof -
  let ?q = "n div d" and ?r = "n mod d"
  have fl: "\<lfloor>real n / real d\<rfloor> = int ?q"
    by (simp add: floor_divide_of_nat_eq)
  have "real n = real ?q * real d + real ?r"
    by (metis div_mult_mod_eq of_nat_add of_nat_mult)
  then have frac: "real n / real d - real_of_int (int ?q) = real ?r / real d"
    using assms by (simp add: field_simps)
  have c1: "real ?r / real d < 1 / 2 \<longleftrightarrow> 2 * ?r < d"
  proof -
    have "real ?r / real d < 1 / 2 \<longleftrightarrow> real (2 * ?r) < real d"
      using assms by (simp add: field_simps)
    then show ?thesis by (simp only: of_nat_less_iff)
  qed
  have c2: "1 / 2 < real ?r / real d \<longleftrightarrow> d < 2 * ?r"
  proof -
    have "1 / 2 < real ?r / real d \<longleftrightarrow> real d < real (2 * ?r)"
      using assms by (simp add: field_simps)
    then show ?thesis by (simp only: of_nat_less_iff)
  qed
  have "rne (real n / real d) =
          (if 2 * ?r < d then int ?q else if d < 2 * ?r then int ?q + 1
           else if even ?q then int ?q else int ?q + 1)"
    unfolding rne_def Let_def fl frac c1 c2 by simp
  then show ?thesis
    unfolding rne_div_def Let_def by simp
qed

lemma pow2_numeral_nat: "(2::real) ^ k = pow2 (int k)"
  by (simp add: pow2_nat)

lemma ratio_bounds:
  assumes n: "0 < n" and d: "0 < d"
  shows "pow2 (int (bitlen n) - int (bitlen d) - 1) < real n / real d"
    and "real n / real d < pow2 (int (bitlen n) - int (bitlen d) + 1)"
    and "d * 2 ^ bitlen n \<le> n * 2 ^ bitlen d \<longleftrightarrow> pow2 (int (bitlen n) - int (bitlen d)) \<le> real n / real d"
proof -
  let ?bn = "bitlen n" and ?bd = "bitlen d"
  from bitlen_bounds[OF n] have "real (2 ^ (?bn - 1)) \<le> real n" "real n < real (2 ^ ?bn)"
    by (simp_all only: of_nat_le_iff of_nat_less_iff)
  moreover have "int (?bn - 1) = int ?bn - 1"
    using bitlen_pos[OF n] by simp
  ultimately have nb: "pow2 (int ?bn - 1) \<le> real n" "real n < pow2 (int ?bn)"
    by (simp_all add: pow2_nat[symmetric] del: of_nat_diff)
  from bitlen_bounds[OF d] have "real (2 ^ (?bd - 1)) \<le> real d" "real d < real (2 ^ ?bd)"
    by (simp_all only: of_nat_le_iff of_nat_less_iff)
  moreover have "int (?bd - 1) = int ?bd - 1"
    using bitlen_pos[OF d] by simp
  ultimately have db: "pow2 (int ?bd - 1) \<le> real d" "real d < pow2 (int ?bd)"
    by (simp_all add: pow2_nat[symmetric] del: of_nat_diff)
  have "pow2 (int ?bn - 1) / pow2 (int ?bd) < real n / real d"
    by (rule frac_less2) (use nb db d in auto)
  then show "pow2 (int ?bn - int ?bd - 1) < real n / real d"
    by (simp add: pow2_diff[symmetric] algebra_simps)
  have "real n / real d < pow2 (int ?bn) / pow2 (int ?bd - 1)"
    by (rule frac_less) (use nb db n in auto)
  then show "real n / real d < pow2 (int ?bn - int ?bd + 1)"
    by (simp add: pow2_diff[symmetric] algebra_simps)
  have "d * 2 ^ ?bn \<le> n * 2 ^ ?bd \<longleftrightarrow> real (d * 2 ^ ?bn) \<le> real (n * 2 ^ ?bd)"
    by (simp only: of_nat_le_iff)
  also have "\<dots> \<longleftrightarrow> real d * pow2 (int ?bn) \<le> real n * pow2 (int ?bd)"
    by (simp add: pow2_nat)
  also have "\<dots> \<longleftrightarrow> pow2 (int ?bn) / pow2 (int ?bd) \<le> real n / real d"
    using d by (simp add: field_simps)
  finally show "d * 2 ^ ?bn \<le> n * 2 ^ ?bd \<longleftrightarrow> pow2 (int ?bn - int ?bd) \<le> real n / real d"
    by (simp add: pow2_diff)
qed

lemma scale_le: "0 < c \<Longrightarrow> a \<le> b \<longleftrightarrow> a * c \<le> b * c" for a b c :: real
  by (simp add: mult_le_cancel_right)

lemma scale_less: "0 < c \<Longrightarrow> a < b \<longleftrightarrow> a * c < b * c" for a b c :: real
  by (simp add: mult_less_cancel_right)

lemma expo_eq:
  assumes "pow2 L \<le> v" "v < pow2 (L + 1)"
  shows "expo v = max (L - 52) (- 1074)"
proof -
  from assms have "0 < v" using pow2_pos[of L] by linarith
  with assms have "\<lfloor>log 2 v\<rfloor> = L" by (simp add: floor_log2_eq)
  then show ?thesis by (simp add: expo_def)
qed

lemma round64_exponent:
  fixes n d :: nat and E :: int
  assumes n: "0 < n" and d: "0 < d"
  defines "v \<equiv> real n / real d * pow2 E"
  defines "a \<equiv> E + int (bitlen n) - int (bitlen d)"
  defines "L \<equiv> (if d * 2 ^ bitlen n \<le> n * 2 ^ bitlen d then a else a - 1)"
  shows "pow2 L \<le> v \<and> v < pow2 (L + 1)"
proof -
  let ?r = "real n / real d"
  let ?k = "int (bitlen n) - int (bitlen d)"
  note rb = ratio_bounds[OF n d]
  have lo: "pow2 (a - 1) < v"
  proof -
    have "pow2 (?k - 1) * pow2 E < ?r * pow2 E"
      using rb(1) scale_less[OF pow2_pos[of E]] by blast
    then show ?thesis by (simp add: v_def a_def pow2_add[symmetric] algebra_simps)
  qed
  have hi: "v < pow2 (a + 1)"
  proof -
    have "?r * pow2 E < pow2 (?k + 1) * pow2 E"
      using rb(2) scale_less[OF pow2_pos[of E]] by blast
    then show ?thesis by (simp add: v_def a_def pow2_add[symmetric] algebra_simps)
  qed
  have mid: "d * 2 ^ bitlen n \<le> n * 2 ^ bitlen d \<longleftrightarrow> pow2 a \<le> v"
  proof -
    have "pow2 ?k \<le> ?r \<longleftrightarrow> pow2 ?k * pow2 E \<le> ?r * pow2 E"
      by (rule scale_le[OF pow2_pos])
    also have "\<dots> \<longleftrightarrow> pow2 a \<le> v"
      by (simp add: v_def a_def pow2_add[symmetric] algebra_simps)
    finally show ?thesis using rb(3) by simp
  qed
  show ?thesis
  proof (cases "d * 2 ^ bitlen n \<le> n * 2 ^ bitlen d")
    case True
    with mid hi show ?thesis by (simp add: L_def)
  next
    case False
    with mid lo show ?thesis by (simp add: L_def)
  qed
qed

lemma round64_quotient:
  fixes n d :: nat and E e :: int
  assumes n: "0 < n" and d: "0 < d"
  defines "v \<equiv> real n / real d * pow2 E"
  shows "int (if E \<le> e then rne_div n (d * 2 ^ nat (e - E)) else rne_div (n * 2 ^ nat (E - e)) d)
         = rne (v / pow2 e)"
proof (cases "E \<le> e")
  case True
  have "real n / real (d * 2 ^ nat (e - E)) = real n / real d / pow2 (e - E)"
    using True by (simp add: pow2_of_nat)
  also have "\<dots> = v / pow2 e"
    by (simp add: v_def pow2_diff)
  finally show ?thesis
    using True d by (simp add: rne_div_rne)
next
  case False
  have "real (n * 2 ^ nat (E - e)) / real d = real n / real d * pow2 (E - e)"
    using False by (simp add: pow2_of_nat)
  also have "\<dots> = v / pow2 e"
    by (simp add: v_def pow2_diff)
  finally show ?thesis
    using False d by (simp add: rne_div_rne)
qed

lemma pow2_53: "pow2 53 = real (2 ^ 53)"
  by (simp add: pow2_def)

lemma pow2_52: "pow2 52 = real (2 ^ 52)"
  by (simp add: pow2_def)

lemma rne_0 [simp]: "rne 0 = 0"
  by (simp add: rne_def)

lemma rne_numeral [simp]: "rne (numeral k) = numeral k"
  using rne_of_int[of "numeral k"] by simp

lemma rne_nonneg: "0 \<le> r \<Longrightarrow> 0 \<le> rne r"
  using rne_mono[of 0 r] by simp

lemma round64_unfold:
  "0 < n \<Longrightarrow> round64 s n d E =
     (let a = E + int (bitlen n) - int (bitlen d);
          L = (if d * 2 ^ bitlen n \<le> n * 2 ^ bitlen d then a else a - 1);
          e = max (L - 52) (- 1074);
          q = (if E \<le> e then rne_div n (d * 2 ^ nat (e - E))
               else rne_div (n * 2 ^ nat (E - e)) d)
      in if 971 < (if q = 2 ^ 53 then e + 1 else e) then FInf s
         else Flt s (if q = 2 ^ 53 then 2 ^ 52 else q) (if q = 2 ^ 53 then e + 1 else e))"
  unfolding round64_def round_core_def by (simp add: Let_def)

lemma round64_rnd:
  fixes n d :: nat and E :: int
  assumes n: "0 < n" and d: "0 < d"
  defines "v \<equiv> real n / real d * pow2 E"
  shows "(rnd v < pow2 1024 \<longrightarrow>
            (\<exists>m e. round64 s n d E = Flt s m e \<and> real m * pow2 e = rnd v \<and> canonical m e))
         \<and> (pow2 1024 \<le> rnd v \<longrightarrow> round64 s n d E = FInf s)"
proof -
  define a where "a = E + int (bitlen n) - int (bitlen d)"
  define L where "L = (if d * 2 ^ bitlen n \<le> n * 2 ^ bitlen d then a else a - 1)"
  define e where "e = max (L - 52) (- 1074)"
  define q where "q = (if E \<le> e then rne_div n (d * 2 ^ nat (e - E)) else rne_div (n * 2 ^ nat (E - e)) d)"
  define w where "w = v / pow2 e"
  have "pow2 L \<le> v \<and> v < pow2 (L + 1)"
    unfolding v_def L_def a_def by (rule round64_exponent[OF n d])
  then have Lb: "pow2 L \<le> v" "v < pow2 (L + 1)" by blast+
  from expo_eq[OF Lb] have ex: "expo v = e" by (simp add: e_def)
  have qw: "int q = rne w"
    unfolding q_def w_def v_def by (rule round64_quotient[OF n d])
  then have rq: "real q = of_int (rne w)"
    by (metis of_int_of_nat_eq)
  have r: "rnd v = real q * pow2 e"
    by (simp add: rnd_def ex rq w_def)
  have unf: "round64 s n d E =
       (if 971 < (if q = 2 ^ 53 then e + 1 else e) then FInf s
        else Flt s (if q = 2 ^ 53 then 2 ^ 52 else q) (if q = 2 ^ 53 then e + 1 else e))"
    using round64_unfold[OF n, of s d E]
    unfolding Let_def a_def[symmetric] L_def[symmetric] e_def[symmetric] q_def[symmetric] .
  have "w < pow2 (L + 1) / pow2 e"
    unfolding w_def using Lb(2) by (simp add: divide_strict_right_mono)
  also have "\<dots> = pow2 (L + 1 - e)" by (simp add: pow2_diff)
  also have "\<dots> \<le> pow2 53" by (simp add: e_def)
  finally have "w \<le> of_int (2 ^ 53)" by (simp add: pow2_53)
  from rne_mono[OF this] qw have "int q \<le> int (2 ^ 53)"
    by simp
  then have q_hi: "q \<le> 2 ^ 53"
    by (simp only: of_nat_le_iff)
  have q_lo: "2 ^ 52 \<le> q" if "e \<noteq> - 1074"
  proof -
    from that have "e = L - 52" by (simp add: e_def)
    then have "pow2 52 = pow2 L / pow2 e" by (simp add: pow2_diff[symmetric])
    also have "\<dots> \<le> w"
      unfolding w_def using Lb(1) by (simp add: divide_right_mono)
    finally have "of_int (2 ^ 52) \<le> w" by (simp add: pow2_52)
    from rne_mono[OF this] qw have "int (2 ^ 52) \<le> int q"
      by simp
    then show ?thesis
      by (simp only: of_nat_le_iff)
  qed
  have e_lo: "- 1074 \<le> e" by (simp add: e_def)
  show ?thesis
  proof (cases "q = 2 ^ 53")
    case True
    then have rv: "rnd v = pow2 (53 + e)"
      by (simp add: r pow2_add pow2_53)
    show ?thesis
    proof (cases "e < 971")
      case True
      have "real (2 ^ 52) * pow2 (e + 1) = pow2 (52 + (e + 1))"
        by (simp only: pow2_add pow2_52)
      then have "real ((2::nat) ^ 52) * pow2 (e + 1) = rnd v"
        by (simp add: rv add.commute add.left_commute)
      moreover have "canonical (2 ^ 52) (e + 1)"
        using True e_lo by (simp add: canonical_def)
      moreover have "round64 s n d E = Flt s (2 ^ 52) (e + 1)"
        using True \<open>q = 2 ^ 53\<close> by (simp add: unf)
      moreover have "rnd v < pow2 1024"
        using True by (simp add: rv)
      ultimately show ?thesis by auto
    next
      case False
      then have "round64 s n d E = FInf s"
        using \<open>q = 2 ^ 53\<close> by (simp add: unf)
      moreover have "pow2 1024 \<le> rnd v"
        using False by (simp add: rv)
      ultimately show ?thesis by auto
    qed
  next
    case False
    with q_hi have q53: "q < 2 ^ 53" by simp
    then have rq53: "real q < pow2 53" unfolding pow2_53 by (simp only: of_nat_less_iff)
    show ?thesis
    proof (cases "e \<le> 971")
      case True
      have "real q * pow2 e < pow2 53 * pow2 e"
        using rq53 scale_less[OF pow2_pos[of e]] by blast
      also have "\<dots> = pow2 (53 + e)" by (simp add: pow2_add)
      also have "\<dots> \<le> pow2 1024" using True by simp
      finally have "rnd v < pow2 1024" by (simp add: r)
      moreover have "canonical q e"
        using True e_lo q53 q_lo by (auto simp: canonical_def)
      moreover have "round64 s n d E = Flt s q e"
        using True False by (simp add: unf)
      ultimately show ?thesis using r by auto
    next
      case e: False
      then have "e \<noteq> - 1074" by simp
      from q_lo[OF this] have "pow2 52 \<le> real q"
        unfolding pow2_52 by (simp only: of_nat_le_iff)
      then have x: "pow2 52 * pow2 e \<le> real q * pow2 e"
        using scale_le[OF pow2_pos[of e]] by blast
      have "pow2 1024 \<le> pow2 (52 + e)" using e by simp
      also have "\<dots> = pow2 52 * pow2 e" by (rule pow2_add)
      also note x
      finally have "pow2 1024 \<le> rnd v" by (simp only: r)
      moreover have "round64 s n d E = FInf s"
        using e False by (simp add: unf)
      ultimately show ?thesis by auto
    qed
  qed
qed

lemma expo_bounds:
  assumes "0 < v"
  obtains L where "pow2 L \<le> v" "v < pow2 (L + 1)" "expo v = max (L - 52) (- 1074)"
proof -
  from assms have "pow2 \<lfloor>log 2 v\<rfloor> \<le> v \<and> v < pow2 (\<lfloor>log 2 v\<rfloor> + 1)"
    using floor_log2_eq[OF assms, of "\<lfloor>log 2 v\<rfloor>"] by simp
  then show ?thesis
    using that[of "\<lfloor>log 2 v\<rfloor>"] by (simp add: expo_def)
qed

lemma expo_ge: "- 1074 \<le> expo v"
  by (simp add: expo_def)

lemma expo_mono:
  assumes "0 < v" "v \<le> u"
  shows "expo v \<le> expo u"
proof -
  from assms have "log 2 v \<le> log 2 u" by simp
  then have "\<lfloor>log 2 v\<rfloor> \<le> \<lfloor>log 2 u\<rfloor>" by (rule floor_mono)
  then show ?thesis by (simp add: expo_def)
qed

lemma scaled_less:
  assumes "0 < v"
  shows "v / pow2 (expo v) < pow2 53"
proof -
  from expo_bounds[OF assms] obtain L where
    L: "v < pow2 (L + 1)" "expo v = max (L - 52) (- 1074)" by metis
  have "v / pow2 (expo v) < pow2 (L + 1) / pow2 (expo v)"
    using L(1) by (simp add: divide_strict_right_mono)
  also have "\<dots> = pow2 (L + 1 - expo v)" by (simp add: pow2_diff)
  also have "\<dots> \<le> pow2 53" by (simp add: L(2))
  finally show ?thesis .
qed

lemma scaled_ge:
  assumes "0 < v" "expo v \<noteq> - 1074"
  shows "pow2 52 \<le> v / pow2 (expo v)"
proof -
  from expo_bounds[OF assms(1)] obtain L where
    L: "pow2 L \<le> v" "expo v = max (L - 52) (- 1074)" by metis
  with assms(2) have e: "expo v = L - 52" by simp
  then have "pow2 52 = pow2 L / pow2 (expo v)" by (simp add: pow2_diff[symmetric])
  also have "\<dots> \<le> v / pow2 (expo v)"
    using L(1) by (simp add: divide_right_mono)
  finally show ?thesis .
qed

lemma rne_scaled_le:
  assumes "0 < v"
  shows "real_of_int (rne (v / pow2 (expo v))) \<le> pow2 53"
proof -
  from scaled_less[OF assms] have "v / pow2 (expo v) \<le> of_int (2 ^ 53)"
    by (simp add: pow2_53)
  from rne_mono[OF this] have "rne (v / pow2 (expo v)) \<le> 2 ^ 53" by simp
  then have "real_of_int (rne (v / pow2 (expo v))) \<le> real_of_int (2 ^ 53)"
    by (simp only: of_int_le_iff)
  then show ?thesis by (simp add: pow2_53)
qed

lemma rne_scaled_ge:
  assumes "0 < v" "expo v \<noteq> - 1074"
  shows "pow2 52 \<le> real_of_int (rne (v / pow2 (expo v)))"
proof -
  from scaled_ge[OF assms] have "of_int (2 ^ 52) \<le> v / pow2 (expo v)"
    by (simp add: pow2_52)
  from rne_mono[OF this] have "2 ^ 52 \<le> rne (v / pow2 (expo v))" by simp
  then have "real_of_int (2 ^ 52) \<le> real_of_int (rne (v / pow2 (expo v)))"
    by (simp only: of_int_le_iff)
  then show ?thesis by (simp add: pow2_52)
qed

lemma rnd_mono:
  assumes "0 < v" "v \<le> u"
  shows "rnd v \<le> rnd u"
proof -
  from assms have u: "0 < u" by simp
  from expo_mono[OF assms] have "expo v = expo u \<or> expo v + 1 \<le> expo u" by linarith
  then show ?thesis
  proof
    assume e: "expo v = expo u"
    have "v / pow2 (expo u) \<le> u / pow2 (expo u)"
      using assms(2) by (simp add: divide_right_mono)
    from rne_mono[OF this] have "real_of_int (rne (v / pow2 (expo u))) \<le> real_of_int (rne (u / pow2 (expo u)))"
      by (simp only: of_int_le_iff)
    then show ?thesis
      unfolding rnd_def e using scale_le[OF pow2_pos[of "expo u"]] by blast
  next
    assume e: "expo v + 1 \<le> expo u"
    with expo_ge[of v] have n: "expo u \<noteq> - 1074" by linarith
    have "rnd v \<le> pow2 53 * pow2 (expo v)"
      unfolding rnd_def using rne_scaled_le[OF assms(1)] scale_le[OF pow2_pos[of "expo v"]] by blast
    also have "\<dots> = pow2 (52 + (expo v + 1))"
      by (simp add: pow2_add[symmetric])
    also have "\<dots> \<le> pow2 (52 + expo u)"
      using e by simp
    also have "\<dots> = pow2 52 * pow2 (expo u)" by (rule pow2_add)
    also have "\<dots> \<le> rnd u"
      unfolding rnd_def using rne_scaled_ge[OF u n] scale_le[OF pow2_pos[of "expo u"]] by blast
    finally show ?thesis .
  qed
qed

lemma rnd_exact:
  assumes m: "0 < m" "m < 2 ^ 53" and e: "- 1074 \<le> e"
  shows "rnd (real m * pow2 e) = real m * pow2 e"
proof -
  let ?v = "real m * pow2 e"
  have v: "0 < ?v" using m(1) by simp
  from expo_bounds[OF v] obtain L where
    L: "pow2 L \<le> ?v" "expo ?v = max (L - 52) (- 1074)" by metis
  from m(2) have "real m < pow2 53" unfolding pow2_53 by (simp only: of_nat_less_iff)
  then have "?v < pow2 53 * pow2 e"
    using scale_less[OF pow2_pos[of e]] by blast
  then have "?v < pow2 (53 + e)" by (simp only: pow2_add)
  with L(1) have "pow2 L < pow2 (53 + e)" by linarith
  then have "L < 53 + e" by simp
  with L(2) e have le: "expo ?v \<le> e" by simp
  define k where "k = nat (e - expo ?v)"
  have "?v / pow2 (expo ?v) = real m * pow2 (e - expo ?v)"
    by (simp add: pow2_diff)
  also have "\<dots> = real m * 2 ^ k"
    using le by (simp add: k_def pow2_of_nat)
  also have "\<dots> = of_int (int (m * 2 ^ k))" by simp
  finally have "rne (?v / pow2 (expo ?v)) = int (m * 2 ^ k)"
    by (simp only: rne_of_int)
  then have "rnd ?v = real (m * 2 ^ k) * pow2 (expo ?v)"
    by (simp add: rnd_def)
  also have "\<dots> = real m * (pow2 (int k) * pow2 (expo ?v))"
    by (simp add: pow2_nat)
  also have "pow2 (int k) * pow2 (expo ?v) = pow2 e"
    using le by (simp add: k_def pow2_add[symmetric])
  finally show ?thesis .
qed

lemma rnd_error:
  assumes "pow2 (- 1022) \<le> v"
  shows "\<bar>rnd v - v\<bar> \<le> v * pow2 (- 53)"
proof -
  have v: "0 < v" using assms pow2_pos[of "- 1022"] by linarith
  from expo_bounds[OF v] obtain L where
    L: "pow2 L \<le> v" "v < pow2 (L + 1)" "expo v = max (L - 52) (- 1074)" by metis
  from assms L(2) have "pow2 (- 1022) < pow2 (L + 1)" by linarith
  then have "- 1022 < L + 1" by (simp only: pow2_less_iff)
  with L(3) have e: "expo v = L - 52" by simp
  let ?w = "v / pow2 (expo v)"
  from rne_bounds[of ?w] have "\<bar>real_of_int (rne ?w) - ?w\<bar> \<le> 1 / 2" by linarith
  then have "\<bar>real_of_int (rne ?w) - ?w\<bar> * pow2 (expo v) \<le> 1 / 2 * pow2 (expo v)"
    using scale_le[OF pow2_pos[of "expo v"]] by blast
  moreover have "\<bar>real_of_int (rne ?w) - ?w\<bar> * pow2 (expo v) = \<bar>rnd v - v\<bar>"
  proof -
    have "\<bar>real_of_int (rne ?w) - ?w\<bar> * pow2 (expo v) = \<bar>(real_of_int (rne ?w) - ?w) * pow2 (expo v)\<bar>"
      by (simp add: abs_mult)
    also have "(real_of_int (rne ?w) - ?w) * pow2 (expo v) = rnd v - v"
      by (simp add: rnd_def algebra_simps)
    finally show ?thesis .
  qed
  moreover have "1 / 2 * pow2 (expo v) = pow2 L * pow2 (- 53)"
  proof -
    have "pow2 (expo v) = pow2 (L + (- 53) + 1)" by (simp add: e)
    also have "\<dots> = pow2 L * pow2 (- 53) * pow2 1" by (simp only: pow2_add)
    also have "pow2 1 = 2" by (simp add: pow2_def)
    finally show ?thesis by simp
  qed
  moreover have "pow2 L * pow2 (- 53) \<le> v * pow2 (- 53)"
    using L(1) scale_le[OF pow2_pos[of "- 53"]] by blast
  ultimately show ?thesis by linarith
qed

section \<open>Values of the float operations\<close>

lemma rnd_nonneg: "0 < v \<Longrightarrow> 0 \<le> rnd v"
  unfolding rnd_def by (simp add: rne_nonneg)

lemma rnds_0 [simp]: "rnds 0 = 0"
  by (simp add: rnds_def)

lemma rnds_pos: "0 < v \<Longrightarrow> rnds v = rnd v"
  by (simp add: rnds_def)

lemma rnds_neg: "v < 0 \<Longrightarrow> rnds v = - rnd (- v)"
  by (simp add: rnds_def)

lemma rnds_minus: "rnds (- v) = - rnds v"
  by (simp add: rnds_def)

lemma rnds_mono: "v \<le> u \<Longrightarrow> rnds v \<le> rnds u"
proof -
  assume vu: "v \<le> u"
  consider "0 < v" | "v \<le> 0" "0 \<le> u" | "u < 0" using vu by linarith
  then show ?thesis
  proof cases
    case 1
    with vu show ?thesis by (simp add: rnds_pos rnd_mono)
  next
    case 2
    have "rnds v \<le> 0" using 2(1) rnd_nonneg[of "- v"] by (auto simp: rnds_def)
    moreover have "0 \<le> rnds u" using 2(2) rnd_nonneg[of u] by (auto simp: rnds_def)
    ultimately show ?thesis by linarith
  next
    case 3
    with vu have "rnd (- u) \<le> rnd (- v)" by (intro rnd_mono) auto
    with 3 vu show ?thesis by (simp add: rnds_neg)
  qed
qed

lemma rnds_exact:
  assumes "\<bar>v\<bar> = real m * pow2 e" "m < 2 ^ 53" "- 1074 \<le> e"
  shows "rnds v = v"
proof (cases "v = 0")
  case True
  then show ?thesis by simp
next
  case False
  with assms(1) have m: "0 < m" by (cases "m = 0") auto
  from rnd_exact[OF m assms(2,3)] assms(1) have "rnd \<bar>v\<bar> = \<bar>v\<bar>" by simp
  with False show ?thesis by (auto simp: rnds_def abs_if split: if_splits)
qed

lemma rnds_error:
  assumes "pow2 (- 1022) \<le> \<bar>v\<bar>"
  shows "\<bar>rnds v - v\<bar> \<le> \<bar>v\<bar> * pow2 (- 53)"
proof -
  from assms have "0 < \<bar>v\<bar>" using pow2_pos[of "- 1022"] by linarith
  then have nz: "v \<noteq> 0" by auto
  from rnd_error[OF assms] have "abs (rnd (abs v) - abs v) \<le> abs v * pow2 (- 53)" .
  with nz show ?thesis by (auto simp: rnds_def abs_if split: if_splits)
qed

lemma canonical_zero [simp]: "canonical 0 (- 1074)"
  by (simp add: canonical_def)

lemma rnds_signed: "0 < x \<Longrightarrow> rnds ((if s then - 1 else 1) * x) = (if s then - rnd x else rnd x)"
  by (simp add: rnds_def)

lemma neg_signed: "0 < x \<Longrightarrow> ((if s then - 1 else 1) * x < 0) = s" for x :: real
  by simp

lemma abs_signed: "0 \<le> y \<Longrightarrow> \<bar>if s then - y else y\<bar> = y" for y :: real
  by simp

lemma round64_rounds_to:
  assumes d: "0 < d"
  shows "rounds_to ((if s then - 1 else 1) * (real n / real d * pow2 E)) (round64 s n d E)"
proof (cases "n = 0")
  case True
  then show ?thesis
    by (simp add: rounds_to_def round64_def round_core_def)
next
  case False
  then have n: "0 < n" by simp
  let ?v = "real n / real d * pow2 E"
  have v: "0 < ?v" using n d by simp
  note A = round64_rnd[OF n d, of E s]
  show ?thesis
    unfolding rounds_to_def rnds_signed[OF v] neg_signed[OF v] abs_signed[OF rnd_nonneg[OF v]]
  proof (cases "rnd ?v < pow2 1024")
    case True
    with A obtain m e where
      "round64 s n d E = Flt s m e" "real m * pow2 e = rnd ?v" "canonical m e" by blast
    with True show "if rnd ?v < pow2 1024
        then is_finite (round64 s n d E) \<and> is_double (round64 s n d E)
             \<and> valof (round64 s n d E) = (if s then - rnd ?v else rnd ?v)
        else round64 s n d E = FInf s"
      by simp
  next
    case False
    with A have "round64 s n d E = FInf s" by simp
    with False show "if rnd ?v < pow2 1024
        then is_finite (round64 s n d E) \<and> is_double (round64 s n d E)
             \<and> valof (round64 s n d E) = (if s then - rnd ?v else rnd ?v)
        else round64 s n d E = FInf s"
      by simp
  qed
qed

lemma valof_signed: "valof (Flt s m e) = real_of_int (signed s m) * pow2 e"
  by (simp add: signed_def)

lemma signed_abs: "nat \<bar>signed s m\<bar> = m"
  by (simp add: signed_def)

lemma rounds_to_finite:
  "rounds_to v r \<Longrightarrow> \<bar>rnds v\<bar> < pow2 1024 \<Longrightarrow> is_finite r \<and> is_double r \<and> valof r = rnds v"
  by (simp add: rounds_to_def)

lemma rounds_to_bounded:
  assumes r: "rounds_to v r" and b: "\<bar>v\<bar> \<le> real m * pow2 e"
    and c: "m < 2 ^ 53" "- 1074 \<le> e" "real m * pow2 e < pow2 1024"
  shows "is_finite r \<and> is_double r \<and> valof r = rnds v \<and> \<bar>valof r\<bar> \<le> real m * pow2 e"
proof -
  let ?c = "real m * pow2 e"
  have pc: "rnds ?c = ?c" by (rule rnds_exact[OF _ c(1,2)]) simp
  have nc: "rnds (- ?c) = - ?c" by (rule rnds_exact[OF _ c(1,2)]) simp
  from b have "- ?c \<le> v" "v \<le> ?c" by linarith+
  then have "rnds (- ?c) \<le> rnds v" "rnds v \<le> rnds ?c" by (simp_all only: rnds_mono)
  with pc nc have a: "\<bar>rnds v\<bar> \<le> ?c" by linarith
  with c(3) have "\<bar>rnds v\<bar> < pow2 1024" by linarith
  from rounds_to_finite[OF r this] a show ?thesis by simp
qed

lemma rounds_to_exact:
  assumes r: "rounds_to v r" and b: "\<bar>v\<bar> = real m * pow2 e"
    and c: "m < 2 ^ 53" "- 1074 \<le> e" "real m * pow2 e < pow2 1024"
  shows "is_finite r \<and> is_double r \<and> valof r = v"
proof -
  from rnds_exact[OF b c(1,2)] have e: "rnds v = v" .
  with b c(3) have "\<bar>rnds v\<bar> < pow2 1024" by simp
  from rounds_to_finite[OF r this] e show ?thesis by simp
qed

lemma float_mul_rounds:
  "rounds_to (valof (Flt s m e) * valof (Flt t k g)) (float_mul (Flt s m e) (Flt t k g))"
proof -
  have "valof (Flt s m e) * valof (Flt t k g)
        = (if s \<noteq> t then - 1 else 1) * (real (m * k) / real 1 * pow2 (e + g))"
    by (simp add: pow2_add)
  then show ?thesis
    using round64_rounds_to[of 1 "s \<noteq> t" "m * k" "e + g"] by simp
qed

lemma rounds_to_zero: "rounds_to 0 (Flt s 0 (- 1074))"
  by (simp add: rounds_to_def)

lemma round64_signed_rounds:
  assumes "v = real_of_int N * pow2 c"
  shows "rounds_to v (round64 (N < 0) (nat \<bar>N\<bar>) 1 c)"
proof -
  have "(if N < 0 then - 1 else 1) * (real (nat \<bar>N\<bar>) / real 1 * pow2 c) = v"
    unfolding assms by (simp add: abs_if)
  then show ?thesis
    using round64_rounds_to[of 1 "N < 0" "nat \<bar>N\<bar>" c] by simp
qed

lemma round64_self_rounds: "rounds_to (valof (Flt s m e)) (round64 s m 1 e)"
  using round64_rounds_to[of 1 s m e] by (simp split: if_splits)

lemma aligned_value:
  "real_of_int (signed s m * 2 ^ nat (e - min e g) + signed t k * 2 ^ nat (g - min e g)) * pow2 (min e g)
   = valof (Flt s m e) + valof (Flt t k g)"
proof -
  have a: "2 ^ nat (e - min e g) * pow2 (min e g) = pow2 e"
    using pow2_add[of "e - min e g" "min e g"] by (simp add: pow2_of_nat)
  have b: "2 ^ nat (g - min e g) * pow2 (min e g) = pow2 g"
    using pow2_add[of "g - min e g" "min e g"] by (simp add: pow2_of_nat)
  have "real_of_int (signed s m * 2 ^ nat (e - min e g) + signed t k * 2 ^ nat (g - min e g)) * pow2 (min e g)
      = real_of_int (signed s m) * (2 ^ nat (e - min e g) * pow2 (min e g))
        + real_of_int (signed t k) * (2 ^ nat (g - min e g) * pow2 (min e g))"
    by (simp add: algebra_simps)
  then show ?thesis
    unfolding a b valof_signed .
qed

lemma float_add_rounds:
  "rounds_to (valof (Flt s m e) + valof (Flt t k g)) (float_add (Flt s m e) (Flt t k g))"
proof -
  let ?N = "signed s m * 2 ^ nat (e - min e g) + signed t k * 2 ^ nat (g - min e g)"
  consider (zz) "m = 0" "k = 0" | (z1) "m = 0" "k \<noteq> 0" | (z2) "m \<noteq> 0" "k = 0"
    | (n0) "m \<noteq> 0" "k \<noteq> 0" "?N = 0" | (nn) "m \<noteq> 0" "k \<noteq> 0" "?N \<noteq> 0" by blast
  then show ?thesis
  proof cases
    case zz
    then show ?thesis by (simp add: rounds_to_zero)
  next
    case z1
    have "valof (Flt s 0 e) + valof (Flt t k g) = valof (Flt t k g)" by simp
    with z1 show ?thesis using round64_self_rounds[of t k g] by (simp del: valof.simps)
  next
    case z2
    have "valof (Flt s m e) + valof (Flt t 0 g) = valof (Flt s m e)" by simp
    with z2 show ?thesis using round64_self_rounds[of s m e] by (simp del: valof.simps)
  next
    case n0
    with aligned_value[of s m e g t k] have "valof (Flt s m e) + valof (Flt t k g) = 0" by simp
    with n0 show ?thesis by (simp add: Let_def rounds_to_zero del: valof.simps)
  next
    case nn
    from round64_signed_rounds[OF aligned_value[symmetric], of s m e t k g] nn
    show ?thesis by (simp add: Let_def del: valof.simps)
  qed
qed

lemma math_floor_valof: "math_floor (Flt s m e) = Inr \<lfloor>valof (Flt s m e)\<rfloor>"
proof (cases "0 \<le> e")
  case True
  then have "valof (Flt s m e) = of_int (signed s m * 2 ^ nat e)"
    unfolding valof_signed by (simp add: pow2_of_nat)
  then have "\<lfloor>valof (Flt s m e)\<rfloor> = signed s m * 2 ^ nat e"
    by (simp only: floor_of_int)
  with True show ?thesis by simp
next
  case False
  then have "pow2 e = 1 / of_int (2 ^ nat (- e))"
    using pow2_minus[of "- e"] by (simp add: pow2_of_nat)
  then have "valof (Flt s m e) = of_int (signed s m) / of_int (2 ^ nat (- e))"
    unfolding valof_signed by simp
  then have "\<lfloor>valof (Flt s m e)\<rfloor> = signed s m div 2 ^ nat (- e)"
    by (simp only: floor_divide_of_int_eq)
  with False show ?thesis by simp
qed

lemma rounds_to_double: "rounds_to v r \<Longrightarrow> is_double r"
  by (auto simp: rounds_to_def split: if_splits)

lemma is_double_float_add: "is_double (float_add x y)"
proof (cases "(x, y)" rule: float_add.cases)
  case (6 s m e t k g)
  then show ?thesis
    using rounds_to_double[OF float_add_rounds[of s m e t k g]] by simp
qed auto

lemma pow2_971: "pow2 971 = of_int (2 ^ 971)"
  by (simp add: pow2_def)

lemma double_bound:
  assumes "canonical m e"
  shows "real m * pow2 e \<le> of_int ((2 ^ 53 - 1) * 2 ^ 971)"
proof -
  from assms have "m \<le> 2 ^ 53 - 1" "e \<le> 971" by (simp_all add: canonical_def)
  then have "real m \<le> real (2 ^ 53 - 1)" "pow2 e \<le> pow2 971"
    by (simp_all only: of_nat_le_iff pow2_le_iff)
  then have "real m * pow2 e \<le> real (2 ^ 53 - 1) * pow2 971"
    by (intro mult_mono) simp_all
  then show ?thesis by (simp add: pow2_971)
qed

lemma floor_abs_le:
  assumes "\<bar>x\<bar> \<le> of_int M"
  shows "\<bar>\<lfloor>x\<rfloor>\<bar> \<le> M"
proof -
  from assms have "x \<le> of_int M" "of_int (- M) \<le> x" by simp_all
  then have "\<lfloor>x\<rfloor> \<le> M" "- M \<le> \<lfloor>x\<rfloor>"
    by (simp_all add: floor_le_iff le_floor_iff)
  then show ?thesis by linarith
qed

lemma double_floor_bound:
  assumes "is_double (Flt s m e)"
  shows "\<bar>\<lfloor>valof (Flt s m e)\<rfloor>\<bar> \<le> (2 ^ 53 - 1) * 2 ^ 971"
proof -
  from assms have "canonical m e" by simp
  from double_bound[OF this] have "\<bar>valof (Flt s m e)\<bar> \<le> of_int ((2 ^ 53 - 1) * 2 ^ 971)"
    by (simp add: abs_mult)
  then show ?thesis by (rule floor_abs_le)
qed

lemma int_truediv_rounds:
  assumes "b \<noteq> 0"
  shows "rounds_to (of_int a / of_int b) (round64 ((a < 0) \<noteq> (b < 0)) (nat \<bar>a\<bar>) (nat \<bar>b\<bar>) 0)"
proof -
  have "(if (a < 0) \<noteq> (b < 0) then - 1 else 1) * (real (nat \<bar>a\<bar>) / real (nat \<bar>b\<bar>) * pow2 0)
        = (of_int a / of_int b :: real)"
    using assms by (auto simp: abs_if)
  moreover have "0 < nat \<bar>b\<bar>" using assms by simp
  ultimately show ?thesis
    using round64_rounds_to[of "nat \<bar>b\<bar>" "(a < 0) \<noteq> (b < 0)" "nat \<bar>a\<bar>" 0] by simp
qed

lemma int_truediv_returns:
  assumes a: "\<bar>a\<bar> \<le> (2 ^ 53 - 1) * 2 ^ 971" and b: "1 \<le> b"
  shows "\<exists>y. int_truediv a b = Inr y \<and> is_finite y \<and> valof y = rnds (of_int a / of_int b)"
proof -
  let ?r = "round64 ((a < 0) \<noteq> (b < 0)) (nat \<bar>a\<bar>) (nat \<bar>b\<bar>) 0"
  from b have nz: "b \<noteq> 0" by simp
  have "\<bar>real_of_int a / real_of_int b\<bar> \<le> \<bar>real_of_int a\<bar>"
  proof -
    from b have "1 \<le> \<bar>real_of_int b\<bar>" by simp
    then have "\<bar>real_of_int a\<bar> / \<bar>real_of_int b\<bar> \<le> \<bar>real_of_int a\<bar> / 1"
      by (intro divide_left_mono) simp_all
    then show ?thesis by simp
  qed
  also have "\<dots> \<le> of_int ((2 ^ 53 - 1) * 2 ^ 971)"
    using a by (simp only: of_int_abs[symmetric] of_int_le_iff)
  also have "\<dots> = real (2 ^ 53 - 1) * pow2 971" by (simp add: pow2_971)
  finally have bound: "\<bar>real_of_int a / real_of_int b\<bar> \<le> real (2 ^ 53 - 1) * pow2 971" .
  have lt: "real (2 ^ 53 - 1) * pow2 971 < pow2 1024"
  proof -
    have "real (2 ^ 53 - 1) < pow2 53" by (simp add: pow2_53)
    then have "real (2 ^ 53 - 1) * pow2 971 < pow2 53 * pow2 971"
      using scale_less[OF pow2_pos[of 971]] by blast
    also have "\<dots> = pow2 1024" by (simp add: pow2_add[symmetric])
    finally show ?thesis .
  qed
  from rounds_to_bounded[OF int_truediv_rounds[OF nz] bound _ _ lt]
  have f: "is_finite ?r" "valof ?r = rnds (of_int a / of_int b)" by simp_all
  then have "int_truediv a b = Inr ?r"
    using nz by (cases ?r) (simp_all add: int_truediv_def)
  with f show ?thesis by simp
qed

lemma round_component_returns:
  assumes F: "float_of_int (10 ^ p) = Inr F"
    and fin: "is_finite (float_add (float_mul x F) fhalf)"
  shows "\<exists>y. round_component p x = Inr y"
proof -
  from fin obtain s m e where b: "float_add (float_mul x F) fhalf = Flt s m e"
    by (cases "float_add (float_mul x F) fhalf") auto
  with is_double_float_add[of "float_mul x F" fhalf] have "is_double (Flt s m e)" by simp
  from double_floor_bound[OF this] have k: "\<bar>\<lfloor>valof (Flt s m e)\<rfloor>\<bar> \<le> (2 ^ 53 - 1) * 2 ^ 971" .
  have "(1::int) \<le> 10 ^ p" by simp
  from int_truediv_returns[OF k this] obtain y where
    "int_truediv \<lfloor>valof (Flt s m e)\<rfloor> (10 ^ p) = Inr y" by blast
  with F b show ?thesis
    by (simp add: round_component_def math_floor_valof del: valof.simps math_floor.simps)
qed

lemma round_component_returns_iff:
  "(\<exists>y. round_component p x = Inr y) \<longleftrightarrow>
   (\<exists>F. float_of_int (10 ^ p) = Inr F \<and> is_finite (float_add (float_mul x F) fhalf))"
proof
  assume "\<exists>y. round_component p x = Inr y"
  then obtain y where y: "round_component p x = Inr y" ..
  then obtain F where F: "float_of_int (10 ^ p) = Inr F"
    by (cases "float_of_int (10 ^ p)") (auto simp: round_component_def)
  with y obtain k where "math_floor (float_add (float_mul x F) fhalf) = Inr k"
    by (cases "math_floor (float_add (float_mul x F) fhalf)") (auto simp: round_component_def)
  then have "is_finite (float_add (float_mul x F) fhalf)"
    by (cases "float_add (float_mul x F) fhalf") auto
  with F show "\<exists>F. float_of_int (10 ^ p) = Inr F \<and> is_finite (float_add (float_mul x F) fhalf)"
    by blast
next
  assume "\<exists>F. float_of_int (10 ^ p) = Inr F \<and> is_finite (float_add (float_mul x F) fhalf)"
  then show "\<exists>y. round_component p x = Inr y"
    using round_component_returns by blast
qed

lemma map_err_returns_iff: "(\<exists>ys. map_err f xs = Inr ys) \<longleftrightarrow> (\<forall>x\<in>set xs. \<exists>y. f x = Inr y)"
proof
  assume "\<exists>ys. map_err f xs = Inr ys"
  then obtain ys where "list_all2 (\<lambda>x y. f x = Inr y) xs ys"
    by (auto simp: map_err_list_all2)
  then show "\<forall>x\<in>set xs. \<exists>y. f x = Inr y"
    by (auto simp: list_all2_conv_all_nth in_set_conv_nth)
qed (rule map_err_total)

lemma process_records:
  "process B a its (ps, d) = Inr (ps', d') \<Longrightarrow>
   \<exists>qs. ps' = ps @ qs \<and>
     list_all2 (\<lambda>it r. \<exists>vec. coerce_vector B (vector it) = Inr vec \<and> length (vector r) = length vec) its qs"
proof (induction its arbitrary: ps d)
  case Nil
  then show ?case by simp
next
  case (Cons it its)
  from Cons.prems obtain vec vec' vec'' where
    c: "coerce_vector B (vector it) = Inr vec" and
    n: "(if normalize_flag a then normalize_vector vec eps_default else Inr vec) = Inr vec'" and
    r: "round_vector vec' (precision a) = Inr vec''" and
    step: "process B a its (ps @ [\<lparr>ident = ident it, vector = vec''\<rparr>],
             (case d of None \<Rightarrow> Some (detect_dimension vec'') | Some n \<Rightarrow> Some n)) = Inr (ps', d')"
    by (auto split: sum.splits)
  from n have l1: "length vec' = length vec"
    using normalize_vector_default_total[of vec] by (auto split: if_splits)
  from r have l2: "length vec'' = length vec'"
    by (simp add: round_vector_def map_err_length)
  from Cons.IH[OF step] obtain qs where
    qs: "ps' = (ps @ [\<lparr>ident = ident it, vector = vec''\<rparr>]) @ qs"
      "list_all2 (\<lambda>it r. \<exists>vec. coerce_vector B (vector it) = Inr vec \<and> length (vector r) = length vec) its qs"
    by blast
  show ?case
  proof (intro exI conjI)
    show "ps' = ps @ (\<lparr>ident = ident it, vector = vec''\<rparr> # qs)" using qs(1) by simp
    show "list_all2 (\<lambda>it r. \<exists>vec. coerce_vector B (vector it) = Inr vec \<and> length (vector r) = length vec)
            (it # its) (\<lparr>ident = ident it, vector = vec''\<rparr> # qs)"
      using qs(2) c l1 l2 by simp
  qed
qed

text \<open>
  C10 (amended).  \<^verbatim>\<open>normalize_vector\<close> with the default \<open>eps\<close> always returns a list of the
  length of its input.  \<^verbatim>\<open>round_vector\<close> returns exactly when, for every component \<open>x\<close>,
  \<^verbatim>\<open>10 ** precision\<close> converts to a float and \<^verbatim>\<open>x * factor + 0.5\<close> is finite, and what it returns
  has the length of its input.  The vector of every record of a document has the length of the
  coerced vector of the pair it comes from.
\<close>

theorem vector_length_preserved:
  "(\<exists>w. normalize_vector v eps_default = Inr w \<and> length w = length v)
   \<and> ((\<exists>w. round_vector v p = Inr w) \<longleftrightarrow>
        (\<forall>x\<in>set v. \<exists>F. float_of_int (10 ^ p) = Inr F
                         \<and> is_finite (float_add (float_mul x F) fhalf)))
   \<and> (\<forall>w. round_vector v p = Inr w \<longrightarrow> length w = length v)
   \<and> (main B a data = Inr doc \<and> extract_items B data = Inr items \<longrightarrow>
        list_all2 (\<lambda>it r. \<exists>vec. coerce_vector B (vector it) = Inr vec
                               \<and> length (vector r) = length vec)
          (select_items a items) (embeddings doc))"
proof (intro conjI impI allI)
  show "\<exists>w. normalize_vector v eps_default = Inr w \<and> length w = length v"
    by (rule normalize_vector_default_total)
  show "(\<exists>w. round_vector v p = Inr w) \<longleftrightarrow>
        (\<forall>x\<in>set v. \<exists>F. float_of_int (10 ^ p) = Inr F
                         \<and> is_finite (float_add (float_mul x F) fhalf))"
    unfolding round_vector_def map_err_returns_iff round_component_returns_iff ..
  show "length w = length v" if "round_vector v p = Inr w" for w
    using that by (simp add: round_vector_def map_err_length)
  show "list_all2 (\<lambda>it r. \<exists>vec. coerce_vector B (vector it) = Inr vec
                               \<and> length (vector r) = length vec)
          (select_items a items) (embeddings doc)"
    if h: "main B a data = Inr doc \<and> extract_items B data = Inr items"
  proof -
    from h obtain ps d where
      p: "process B a (select_items a items) ([], None) = Inr (ps, d)" and e: "embeddings doc = ps"
      by (auto elim!: main_Inr_cases)
    from process_records[OF p] e show ?thesis by simp
  qed
qed

theorem vector_length_preserved_witness:
  "round_vector [fone] 0 = Inr [fone]
   \<and> float_of_int (10 ^ 0) = Inr fone
   \<and> is_finite (float_add (float_mul fone fone) fhalf)
   \<and> main plain_builtins \<lparr>precision = 0, max_items = None, sort_flag = False, normalize_flag = False\<rparr>
        (PList [PTuple [PStr ''a'', PList [PInt 1]]])
      = Inr \<lparr>version = 1, dimension = 1, count = 1,
             embeddings = [\<lparr>ident = ''a'', vector = [fone]\<rparr>]\<rparr>
   \<and> coerce_vector plain_builtins (PList [PInt 1]) = Inr [fone]"
proof -
  let ?a = "\<lparr>precision = 0, max_items = None, sort_flag = False, normalize_flag = False\<rparr>"
  let ?d = "PList [PTuple [PStr ''a'', PList [PInt 1]]]"
  have r: "round_vector [fone] 0 = Inr [fone]" by (simp add: ev)
  have f: "float_of_int (10 ^ 0) = Inr fone" by (simp add: ev)
  have i: "is_finite (float_add (float_mul fone fone) fhalf)" by (simp add: ev)
  have m: "main plain_builtins ?a ?d
      = Inr \<lparr>version = 1, dimension = 1, count = 1,
             embeddings = [\<lparr>ident = ''a'', vector = [fone]\<rparr>]\<rparr>"
    by (simp add: ev)
  have x: "extract_items plain_builtins ?d = Inr [\<lparr>ident = ''a'', vector = PList [PInt 1]\<rparr>]"
    by simp
  have c: "coerce_vector plain_builtins (PList [PInt 1]) = Inr [fone]" by (simp add: ev)
  from vector_length_preserved[of "[fone]" 0 plain_builtins ?a ?d _ _] r f i m x c
  show ?thesis by simp
qed

text \<open>
  On a NaN component \<^verbatim>\<open>math.floor\<close> raises \<^verbatim>\<open>ValueError\<close>: \<^verbatim>\<open>round_vector\<close> returns no list.
\<close>

theorem round_vector_nan_counterexample:
  "round_vector [FNaN] 0 = Inl (ValueError BuiltinValueError)"
  by (simp add: ev)

section \<open>Rounding twice\<close>

lemma representable_rnds: "representable v \<Longrightarrow> rnds v = v"
  unfolding representable_def using rnds_exact by blast

lemma representable_less: "representable v \<Longrightarrow> \<bar>v\<bar> < pow2 1024"
  unfolding representable_def by auto

lemma representable_int:
  assumes "\<bar>j\<bar> < 2 ^ 53" "- 1074 \<le> e" "e \<le> 970"
  shows "representable (of_int j * pow2 e)"
proof -
  let ?m = "nat \<bar>j\<bar>"
  have a: "\<bar>real_of_int j * pow2 e\<bar> = real ?m * pow2 e"
    by (simp add: abs_mult)
  from assms(1) have m: "?m < 2 ^ 53" by (simp add: nat_less_iff)
  then have "real ?m < pow2 53" unfolding pow2_53 by (simp only: of_nat_less_iff)
  then have "real ?m * pow2 e < pow2 53 * pow2 e"
    using scale_less[OF pow2_pos[of e]] by blast
  also have "\<dots> = pow2 (53 + e)" by (simp only: pow2_add)
  also have "\<dots> < pow2 1024" using assms(3) by simp
  finally have "real ?m * pow2 e < pow2 1024" .
  with a m assms(2) show ?thesis
    unfolding representable_def by blast
qed

lemma rounds_to_between:
  assumes r: "rounds_to v r" and b: "lo \<le> v" "v \<le> hi"
    and rep: "representable lo" "representable hi"
  shows "is_finite r \<and> is_double r \<and> valof r = rnds v \<and> lo \<le> valof r \<and> valof r \<le> hi"
proof -
  from rnds_mono[OF b(1)] rnds_mono[OF b(2)] rep
  have a: "lo \<le> rnds v" "rnds v \<le> hi" by (simp_all add: representable_rnds)
  from representable_less[OF rep(1)] representable_less[OF rep(2)] a
  have "\<bar>rnds v\<bar> < pow2 1024" by linarith
  from rounds_to_finite[OF r this] a show ?thesis by simp
qed

lemma rounds_to_error:
  assumes r: "rounds_to v r" and f: "is_finite r" and n: "v = 0 \<or> pow2 (- 1022) \<le> \<bar>v\<bar>"
  shows "\<bar>valof r - v\<bar> \<le> \<bar>v\<bar> * pow2 (- 53)"
proof -
  from r f have e: "valof r = rnds v"
    by (cases "\<bar>rnds v\<bar> < pow2 1024") (auto simp: rounds_to_def)
  from n show ?thesis
  proof
    assume "v = 0"
    with e show ?thesis by simp
  next
    assume "pow2 (- 1022) \<le> \<bar>v\<bar>"
    from rnds_error[OF this] e show ?thesis by simp
  qed
qed

lemma float_of_int_rounds: "rounds_to (of_int i) (round64 (i < 0) (nat \<bar>i\<bar>) 1 0)"
  by (rule round64_signed_rounds) simp

lemma five_pow_bound: "p \<le> 22 \<Longrightarrow> (5::int) ^ p < 2 ^ 53"
proof -
  assume "p \<le> 22"
  then have "(5::int) ^ p \<le> 5 ^ 22" by (intro power_increasing) simp_all
  also have "\<dots> < 2 ^ 53" by simp
  finally show ?thesis .
qed

lemma float_of_int_pow10:
  assumes "p \<le> 22"
  shows "\<exists>s m e. float_of_int (10 ^ p) = Inr (Flt s m e) \<and> valof (Flt s m e) = 10 ^ p"
proof -
  let ?r = "round64 ((10::int) ^ p < 0) (nat \<bar>10 ^ p\<bar>) 1 0"
  have "(10::real) ^ p = of_int (5 ^ p) * pow2 (int p)"
    by (simp add: pow2_nat power_mult_distrib[symmetric])
  moreover have "representable (of_int (5 ^ p) * pow2 (int p))"
    using five_pow_bound[OF assms] assms by (intro representable_int) simp_all
  ultimately have rep: "representable (10 ^ p)" by simp
  have "rounds_to (10 ^ p) ?r"
    using float_of_int_rounds[of "10 ^ p"] by simp
  from rounds_to_between[OF this _ _ rep rep] have f: "is_finite ?r" "valof ?r = 10 ^ p"
    by (simp_all add: representable_rnds[OF rep])
  then obtain s m e where r: "?r = Flt s m e" by (cases ?r) auto
  then have "float_of_int (10 ^ p) = Inr (Flt s m e)"
    by (simp add: float_of_int_def)
  with f r show ?thesis by auto
qed

lemma valof_fhalf: "valof fhalf = 1 / 2"
  by (simp add: fhalf_def pow2_def)

lemma finite_Flt: "is_finite x \<Longrightarrow> \<exists>s m e. x = Flt s m e"
  by (cases x) auto

lemma rep_pm:
  assumes "\<bar>j\<bar> < 2 ^ 53" "- 1074 \<le> e" "e \<le> 970" "v = of_int j * pow2 e"
  shows "representable v"
  using representable_int[OF assms(1-3)] assms(4) by simp

lemma pow2_m1: "pow2 (- 1) = 1 / 2"
  by (simp add: pow2_def)

lemma pow2_m2: "pow2 (- 2) = 1 / 4"
  by (simp add: pow2_def)

lemma float_add_half_rounds: "rounds_to (valof (Flt s m e) + 1 / 2) (float_add (Flt s m e) fhalf)"
proof -
  have "rounds_to (valof (Flt s m e) + valof fhalf) (float_add (Flt s m e) fhalf)"
    unfolding fhalf_def by (rule float_add_rounds)
  then show ?thesis by (simp only: valof_fhalf)
qed

lemma float_mul_factor_rounds:
  assumes "valof (Flt t k g) = c"
  shows "rounds_to (valof (Flt s m e) * c) (float_mul (Flt s m e) (Flt t k g))"
  unfolding assms[symmetric] by (rule float_mul_rounds)

lemma round_component_first:
  assumes p: "p \<le> 22" and b: "\<bar>valof (Flt s m e)\<bar> * 10 ^ p \<le> 2 ^ 48"
  shows "\<exists>k y. round_component p (Flt s m e) = Inr y \<and> \<bar>k\<bar> \<le> 2 ^ 49
           \<and> int_truediv k (10 ^ p) = Inr y \<and> is_finite y
           \<and> valof y = rnds (of_int k / 10 ^ p)"
proof -
  let ?x = "Flt s m e"
  from float_of_int_pow10[OF p] obtain t mf ef where
    F: "float_of_int (10 ^ p) = Inr (Flt t mf ef)" and vF: "valof (Flt t mf ef) = 10 ^ p" by blast
  let ?F = "Flt t mf ef"
  define A where "A = float_mul ?x ?F"
  have rA: "rounds_to (valof ?x * 10 ^ p) A"
    unfolding A_def by (rule float_mul_factor_rounds[OF vF])
  from b have "\<bar>valof ?x * 10 ^ p\<bar> \<le> 2 ^ 48" by (simp add: abs_mult del: valof.simps)
  then have bA: "- (2 ^ 48) \<le> valof ?x * 10 ^ p" "valof ?x * 10 ^ p \<le> 2 ^ 48" by linarith+
  have r1: "representable (- (2 ^ 48))" by (rule rep_pm[of "- (2 ^ 48)" 0]) simp_all
  have r2: "representable (2 ^ 48)" by (rule rep_pm[of "2 ^ 48" 0]) simp_all
  from rounds_to_between[OF rA bA r1 r2]
  have fA: "is_finite A" and vA: "- (2 ^ 48) \<le> valof A" "valof A \<le> 2 ^ 48" by simp_all
  from finite_Flt[OF fA] obtain sa ma ea where A: "A = Flt sa ma ea" by blast
  define Bf where "Bf = float_add A fhalf"
  have rB: "rounds_to (valof A + 1 / 2) Bf"
    unfolding Bf_def A by (rule float_add_half_rounds)
  from vA have bB: "- (2 ^ 48) + 1 / 2 \<le> valof A + 1 / 2" "valof A + 1 / 2 \<le> 2 ^ 48 + 1 / 2" by linarith+
  have r3: "representable (- (2 ^ 48) + 1 / 2)"
    by (rule rep_pm[of "- (2 ^ 49) + 1" "- 1"]) (simp_all add: pow2_m1)
  have r4: "representable (2 ^ 48 + 1 / 2)"
    by (rule rep_pm[of "2 ^ 49 + 1" "- 1"]) (simp_all add: pow2_m1)
  from rounds_to_between[OF rB bB r3 r4]
  have fB: "is_finite Bf" and vB: "- (2 ^ 48) + 1 / 2 \<le> valof Bf" "valof Bf \<le> 2 ^ 48 + 1 / 2" by simp_all
  from finite_Flt[OF fB] obtain sb mb eb where B: "Bf = Flt sb mb eb" by blast
  define k where "k = \<lfloor>valof Bf\<rfloor>"
  have fl: "math_floor Bf = Inr k"
    unfolding k_def B by (rule math_floor_valof)
  have "k \<le> 2 ^ 48"
  proof -
    from vB(2) have "valof Bf < of_int (2 ^ 48 + 1)" by simp
    then have "k < 2 ^ 48 + 1" unfolding k_def by (simp only: floor_less_iff)
    then show ?thesis by simp
  qed
  moreover have "- (2 ^ 48) \<le> k"
  proof -
    from vB(1) have "of_int (- (2 ^ 48)) \<le> valof Bf" by simp
    then show ?thesis unfolding k_def by (simp only: le_floor_iff)
  qed
  ultimately have k48: "\<bar>k\<bar> \<le> 2 ^ 48" by linarith
  then have k49: "\<bar>k\<bar> \<le> 2 ^ 49" by simp
  from k48 have kM: "\<bar>k\<bar> \<le> (2 ^ 53 - 1) * 2 ^ 971" by simp
  have "(1::int) \<le> 10 ^ p" by simp
  from int_truediv_returns[OF kM this] obtain y where
    y: "int_truediv k (10 ^ p) = Inr y" "is_finite y" "valof y = rnds (of_int k / of_int (10 ^ p))"
    by blast
  have fl': "math_floor (float_add (float_mul ?x ?F) fhalf) = Inr k"
    using fl unfolding Bf_def A_def .
  have "round_component p ?x = Inr y"
    using y(1) by (simp add: round_component_def F fl' del: float_mul.simps float_add.simps)
  with k49 y show ?thesis by auto
qed

lemma pow2_m53: "pow2 (- 53) = 1 / 2 ^ 53"
  by (simp add: pow2_def)

lemma tiny_le_half: "pow2 (- 1022) \<le> 1 / 2"
proof -
  have "pow2 (- 1022) \<le> pow2 (- 1)" by simp
  then show ?thesis by (simp only: pow2_m1)
qed

lemma tiny_le_pow10:
  assumes "p \<le> 22"
  shows "pow2 (- 1022) \<le> 1 / 10 ^ p"
proof -
  have "pow2 (- 1022) \<le> pow2 (- 74)" by simp
  also have "\<dots> = 1 / 2 ^ 74" by (simp add: pow2_def)
  also have "\<dots> \<le> 1 / 10 ^ 22" by simp
  also have "\<dots> \<le> 1 / (10::real) ^ p"
    using assms by (intro divide_left_mono power_increasing) simp_all
  finally show ?thesis .
qed

lemma round_component_fixed:
  assumes p: "p \<le> 22" and k: "\<bar>k\<bar> \<le> 2 ^ 49"
    and y: "int_truediv k (10 ^ p) = Inr y" "is_finite y" "valof y = rnds (of_int k / 10 ^ p)"
  shows "round_component p y = Inr y"
proof -
  from float_of_int_pow10[OF p] obtain t mf ef where
    F: "float_of_int (10 ^ p) = Inr (Flt t mf ef)" and vF: "valof (Flt t mf ef) = 10 ^ p" by blast
  let ?F = "Flt t mf ef"
  from finite_Flt[OF y(2)] obtain sy my ey where Y: "y = Flt sy my ey" by blast
  define q :: real where "q = of_int k / 10 ^ p"
  define u :: real where "u = pow2 (- 53)"
  define z where "z = valof y * 10 ^ p"
  have u: "u = 1 / 2 ^ 53" "0 \<le> u" by (simp_all add: u_def pow2_m53)
  have ten: "(0::real) < 10 ^ p" by simp
  have rk: "\<bar>real_of_int k\<bar> \<le> 2 ^ 49"
  proof -
    from k have "real_of_int \<bar>k\<bar> \<le> real_of_int (2 ^ 49)" by (simp only: of_int_le_iff)
    then show ?thesis by simp
  qed
  have k0: "z = 0" if "k = 0"
    using that y(3) by (simp add: z_def)
  have k1: "1 \<le> \<bar>real_of_int k\<bar>" if "k \<noteq> 0"
  proof -
    from that have "1 \<le> \<bar>k\<bar>" by linarith
    then have "real_of_int 1 \<le> real_of_int \<bar>k\<bar>" by (simp only: of_int_le_iff)
    then show ?thesis by simp
  qed
  have err1: "\<bar>valof y - q\<bar> \<le> \<bar>q\<bar> * u"
  proof (cases "k = 0")
    case True
    then show ?thesis using y(3) by (simp add: q_def)
  next
    case False
    have "1 / 10 ^ p \<le> \<bar>real_of_int k\<bar> / 10 ^ p"
      using k1[OF False] by (intro divide_right_mono) simp_all
    with tiny_le_pow10[OF p] have "pow2 (- 1022) \<le> \<bar>q\<bar>"
      by (simp add: q_def)
    from rnds_error[OF this] show ?thesis
      using y(3) by (simp add: q_def u_def)
  qed
  have zq: "z - of_int k = (valof y - q) * 10 ^ p"
    by (simp add: z_def q_def algebra_simps)
  have qk: "\<bar>q\<bar> * 10 ^ p = \<bar>real_of_int k\<bar>"
    by (simp add: q_def)
  have "\<bar>z - of_int k\<bar> = \<bar>valof y - q\<bar> * 10 ^ p"
    unfolding zq by (simp add: abs_mult)
  also have "\<dots> \<le> (\<bar>q\<bar> * u) * 10 ^ p"
    using err1 by (intro mult_right_mono) simp_all
  also have "\<dots> = \<bar>real_of_int k\<bar> * u"
    using qk by (simp add: algebra_simps)
  also have "\<dots> \<le> 2 ^ 49 * u"
    using rk u(2) by (intro mult_right_mono)
  also have "\<dots> = 1 / 16" by (simp add: u(1))
  finally have zk: "\<bar>z - of_int k\<bar> \<le> 1 / 16" .
  define A where "A = float_mul y ?F"
  have rA: "rounds_to z A"
    unfolding A_def z_def Y by (rule float_mul_factor_rounds[OF vF])
  have h: "(2::real) ^ 50 = 2 * 2 ^ 49" "(1::real) \<le> 2 ^ 49" by simp_all
  from zk rk h have bz: "- (2 ^ 50) \<le> z" "z \<le> 2 ^ 50" by linarith+
  have r1: "representable (- (2 ^ 50))" by (rule rep_pm[of "- (2 ^ 50)" 0]) simp_all
  have r2: "representable (2 ^ 50)" by (rule rep_pm[of "2 ^ 50" 0]) simp_all
  from rounds_to_between[OF rA bz r1 r2] have fA: "is_finite A" by simp
  have nz: "z = 0 \<or> pow2 (- 1022) \<le> \<bar>z\<bar>"
  proof (cases "k = 0")
    case True
    then show ?thesis using k0 by simp
  next
    case False
    from k1[OF False] zk have "1 / 2 \<le> \<bar>z\<bar>" by linarith
    with tiny_le_half show ?thesis by linarith
  qed
  from rounds_to_error[OF rA fA nz] have "\<bar>valof A - z\<bar> \<le> \<bar>z\<bar> * u"
    by (simp add: u_def)
  also have "\<dots> \<le> 2 ^ 50 * u"
    using bz u(2) by (intro mult_right_mono) (simp_all add: abs_le_iff)
  also have "\<dots> = 1 / 8" by (simp add: u(1))
  finally have "\<bar>valof A - z\<bar> \<le> 1 / 8" .
  with zk have Ak: "of_int k - 1 / 4 \<le> valof A" "valof A \<le> of_int k + 1 / 4" by linarith+
  from finite_Flt[OF fA] obtain sa ma ea where A: "A = Flt sa ma ea" by blast
  define Bf where "Bf = float_add A fhalf"
  have rB: "rounds_to (valof A + 1 / 2) Bf"
    unfolding Bf_def A by (rule float_add_half_rounds)
  from Ak have bB: "of_int k + 1 / 4 \<le> valof A + 1 / 2" "valof A + 1 / 2 \<le> of_int k + 3 / 4"
    by linarith+
  have r3: "representable (of_int k + 1 / 4)"
    by (rule rep_pm[of "4 * k + 1" "- 2"]) (use k in \<open>simp_all add: pow2_m2\<close>)
  have r4: "representable (of_int k + 3 / 4)"
    by (rule rep_pm[of "4 * k + 3" "- 2"]) (use k in \<open>simp_all add: pow2_m2\<close>)
  from rounds_to_between[OF rB bB r3 r4]
  have fB: "is_finite Bf" and vB: "of_int k + 1 / 4 \<le> valof Bf" "valof Bf \<le> of_int k + 3 / 4"
    by simp_all
  from finite_Flt[OF fB] obtain sb mb eb where B: "Bf = Flt sb mb eb" by blast
  have "\<lfloor>valof Bf\<rfloor> = k"
    using vB by (intro floor_unique) linarith+
  then have fl: "math_floor Bf = Inr k"
    unfolding B using math_floor_valof[of sb mb eb] by simp
  have fl': "math_floor (float_add (float_mul y ?F) fhalf) = Inr k"
    using fl unfolding Bf_def A_def .
  show ?thesis
    using y(1) by (simp add: round_component_def F fl' del: float_mul.simps float_add.simps)
qed

lemma round_component_twice:
  assumes "p \<le> 22" "is_finite x" "\<bar>valof x\<bar> * 10 ^ p \<le> 2 ^ 48"
  shows "\<exists>y. round_component p x = Inr y \<and> round_component p y = Inr y"
proof -
  from finite_Flt[OF assms(2)] obtain s m e where x: "x = Flt s m e" by blast
  from round_component_first[OF assms(1), of s m e] assms(3) x obtain k y where
    y: "round_component p x = Inr y" "\<bar>k\<bar> \<le> 2 ^ 49" "int_truediv k (10 ^ p) = Inr y"
       "is_finite y" "valof y = rnds (of_int k / 10 ^ p)"
    by blast
  from round_component_fixed[OF assms(1) y(2-5)] y(1) show ?thesis by blast
qed

text \<open>
  C8 (amended).  At a precision \<open>p \<le> 22\<close> (the powers of ten that are doubles), on a vector of
  finite floats whose components \<open>x\<close> satisfy \<open>\<bar>x\<bar> * 10 ^ p \<le> 2 ^ 48\<close>, \<^verbatim>\<open>round_vector\<close> returns a
  vector that \<^verbatim>\<open>round_vector\<close> at the same precision returns unchanged.
\<close>

theorem round_vector_idempotent:
  assumes "p \<le> 22" and "\<forall>x\<in>set v. is_finite x \<and> \<bar>valof x\<bar> * 10 ^ p \<le> 2 ^ 48"
  shows "\<exists>w. round_vector v p = Inr w \<and> round_vector w p = Inr w"
  using assms(2)
proof (induction v)
  case Nil
  show ?case by (simp add: round_vector_def)
next
  case (Cons x xs)
  from Cons.prems have "is_finite x" "\<bar>valof x\<bar> * 10 ^ p \<le> 2 ^ 48" by simp_all
  from round_component_twice[OF assms(1) this] obtain y where
    y: "round_component p x = Inr y" "round_component p y = Inr y" by blast
  from Cons obtain w where w: "round_vector xs p = Inr w" "round_vector w p = Inr w" by auto
  have "round_vector (x # xs) p = Inr (y # w)" "round_vector (y # w) p = Inr (y # w)"
    using y w by (simp_all add: round_vector_def)
  then show ?case by blast
qed

theorem round_vector_idempotent_witness:
  "(2::nat) \<le> 22
   \<and> is_finite (Flt False 4503599627370496 (- 55))
   \<and> \<bar>valof (Flt False 4503599627370496 (- 55))\<bar> * 10 ^ 2 \<le> 2 ^ 48
   \<and> round_vector [Flt False 4503599627370496 (- 55)] 2 = Inr [Flt False 4683743612465316 (- 55)]
   \<and> round_vector [Flt False 4683743612465316 (- 55)] 2 = Inr [Flt False 4683743612465316 (- 55)]"
proof -
  have a: "\<forall>x\<in>set [Flt False 4503599627370496 (- 55)]. is_finite x \<and> \<bar>valof x\<bar> * 10 ^ 2 \<le> 2 ^ 48"
    by (simp add: pow2_def)
  have b: "round_vector [Flt False 4503599627370496 (- 55)] 2 = Inr [Flt False 4683743612465316 (- 55)]"
    by (simp add: ev)
  from round_vector_idempotent[of 2 "[Flt False 4503599627370496 (- 55)]"] a b
  show ?thesis by simp
qed

text \<open>
  At precision 2 the double \<open>80443801573895.53\<close> rounds to \<open>80443801573895.55\<close>, which rounds
  to \<open>80443801573895.56\<close>: near \<open>2 ^ 53\<close> the product \<^verbatim>\<open>x * factor\<close> and the sum with \<^verbatim>\<open>0.5\<close> are
  themselves rounded.
\<close>

theorem round_vector_not_idempotent_counterexample:
  "round_vector [Flt False 5148403300729314 (- 6)] 2 = Inr [Flt False 5148403300729315 (- 6)]
   \<and> round_vector [Flt False 5148403300729315 (- 6)] 2 = Inr [Flt False 5148403300729316 (- 6)]
   \<and> Flt False 5148403300729315 (- 6) \<noteq> Flt False 5148403300729316 (- 6)"
  by (simp add: ev)

section \<open>The rounding formula\<close>

lemma half_up_bounds:
  fixes t :: real
  assumes "\<bar>t\<bar> \<le> 2 ^ j"
  shows "of_int \<lfloor>t + 1 / 2\<rfloor> - 1 / 2 \<le> t" "t < of_int \<lfloor>t + 1 / 2\<rfloor> + 1 / 2"
    "\<bar>\<lfloor>t + 1 / 2\<rfloor>\<bar> \<le> 2 ^ j"
proof -
  let ?m = "\<lfloor>t + 1 / 2\<rfloor>"
  have a: "of_int ?m \<le> t + 1 / 2" "t + 1 / 2 < of_int ?m + 1" by linarith+
  from a show "of_int ?m - 1 / 2 \<le> t" "t < of_int ?m + 1 / 2" by linarith+
  from assms have t: "- (2 ^ j) \<le> t" "t \<le> 2 ^ j" by linarith+
  from a(1) t(2) have "real_of_int ?m < 2 ^ j + 1" by linarith
  then have "real_of_int ?m < of_int (2 ^ j + 1)" by simp
  then have u: "?m < 2 ^ j + 1" by (simp only: of_int_less_iff)
  from a(2) t(1) have "- (2 ^ j) - 1 < real_of_int ?m" by linarith
  then have "real_of_int (- (2 ^ j) - 1) < of_int ?m" by simp
  then have "- (2 ^ j) - 1 < ?m" by (simp only: of_int_less_iff)
  with u show "\<bar>?m\<bar> \<le> 2 ^ j" by linarith
qed

lemma ulp_scale:
  assumes "j \<le> 48"
  shows "real_of_int (2 ^ (52 - j)) * (2 ^ j / 2 ^ 52) = 1"
    "pow2 (int j - 52) = 2 ^ j / 2 ^ 52"
    "(2::int) ^ (52 - j) = 2 * 2 ^ (51 - j)"
    "(2::int) ^ j * 2 ^ (52 - j) = 2 ^ 52"
    "(2::int) ^ (51 - j) \<le> 2 ^ 51"
proof -
  from assms have e: "52 = j + (52 - j)" by simp
  have "(2::real) ^ 52 = 2 ^ j * 2 ^ (52 - j)"
    by (subst e, subst power_add) simp
  then show "real_of_int (2 ^ (52 - j)) * (2 ^ j / 2 ^ 52) = 1" by (simp add: mult.commute)
  show "pow2 (int j - 52) = 2 ^ j / 2 ^ 52"
    by (simp add: pow2_diff pow2_nat) (simp add: pow2_def)
  from assms have "52 - j = Suc (51 - j)" by simp
  then show "(2::int) ^ (52 - j) = 2 * 2 ^ (51 - j)" by simp
  show "(2::int) ^ j * 2 ^ (52 - j) = 2 ^ 52"
    by (subst power_add[symmetric]) (use assms in simp)
  show "(2::int) ^ (51 - j) \<le> 2 ^ 51" by (intro power_increasing) simp_all
qed

lemma round_component_near:
  assumes p: "p \<le> 22" and j: "j \<le> 48" and b: "\<bar>valof (Flt s m e)\<bar> * 10 ^ p \<le> 2 ^ j"
  defines "t \<equiv> valof (Flt s m e) * 10 ^ p"
  defines "h \<equiv> \<lfloor>valof (Flt s m e) * 10 ^ p + 1 / 2\<rfloor>"
  shows "\<exists>k y. round_component p (Flt s m e) = Inr y
           \<and> int_truediv k (10 ^ p) = Inr y \<and> valof y = rnds (of_int k / 10 ^ p)
           \<and> h \<le> k \<and> k \<le> h + 1
           \<and> (t + 2 ^ j / 2 ^ 52 \<le> of_int h + 1 / 2 \<longrightarrow> k = h)"
proof -
  let ?x = "Flt s m e"
  from float_of_int_pow10[OF p] obtain t' mf ef where
    F: "float_of_int (10 ^ p) = Inr (Flt t' mf ef)" and vF: "valof (Flt t' mf ef) = 10 ^ p" by blast
  let ?F = "Flt t' mf ef"
  define A where "A = float_mul ?x ?F"
  have rA: "rounds_to t A"
    unfolding A_def t_def by (rule float_mul_factor_rounds[OF vF])
  from b have bt: "\<bar>t\<bar> \<le> 2 ^ j" unfolding t_def by (simp add: abs_mult del: valof.simps)
  have h: "h = \<lfloor>t + 1 / 2\<rfloor>" unfolding h_def t_def ..
  from half_up_bounds[OF bt]
  have lo: "of_int h - 1 / 2 \<le> t" and hi: "t \<le> of_int h + 1 / 2" and hb: "\<bar>h\<bar> \<le> 2 ^ j"
    unfolding h by simp_all
  have j48: "(2::int) ^ j \<le> 2 ^ 48" using j by (intro power_increasing) simp_all
  with hb have h48: "\<bar>h\<bar> \<le> 2 ^ 48" by linarith
  have r1: "representable (of_int h - 1 / 2)"
    by (rule rep_pm[of "2 * h - 1" "- 1"]) (use h48 in \<open>simp_all add: pow2_m1\<close>)
  have r2: "representable (of_int h + 1 / 2)"
    by (rule rep_pm[of "2 * h + 1" "- 1"]) (use h48 in \<open>simp_all add: pow2_m1\<close>)
  from rounds_to_between[OF rA lo hi r1 r2]
  have fA: "is_finite A" and vA: "of_int h - 1 / 2 \<le> valof A" "valof A \<le> of_int h + 1 / 2"
    by simp_all
  from finite_Flt[OF fA] obtain sa ma ea where A: "A = Flt sa ma ea" by blast
  define Bf where "Bf = float_add A fhalf"
  have rB: "rounds_to (valof A + 1 / 2) Bf"
    unfolding Bf_def A by (rule float_add_half_rounds)
  from vA have bB: "of_int h \<le> valof A + 1 / 2" "valof A + 1 / 2 \<le> of_int (h + 1)" by simp_all
  have r3: "representable (of_int h)"
    by (rule rep_pm[of h 0]) (use h48 in simp_all)
  have r4: "representable (of_int (h + 1))"
    by (rule rep_pm[of "h + 1" 0]) (use h48 in simp_all)
  from rounds_to_between[OF rB bB r3 r4]
  have fB: "is_finite Bf" and vB: "of_int h \<le> valof Bf" "valof Bf \<le> of_int (h + 1)" by simp_all
  from finite_Flt[OF fB] obtain sb mb eb where B: "Bf = Flt sb mb eb" by blast
  define k where "k = \<lfloor>valof Bf\<rfloor>"
  have fl: "math_floor Bf = Inr k"
    unfolding k_def B by (rule math_floor_valof)
  have k1: "h \<le> k" unfolding k_def using vB(1) by (simp only: le_floor_iff)
  have k2: "k \<le> h + 1"
  proof -
    from vB(2) have "\<lfloor>valof Bf\<rfloor> \<le> \<lfloor>real_of_int (h + 1)\<rfloor>" by (rule floor_mono)
    then show ?thesis unfolding k_def by (simp only: floor_of_int)
  qed
  have k3: "k = h" if c: "t + 2 ^ j / 2 ^ 52 \<le> of_int h + 1 / 2"
  proof -
    define d :: real where "d = 2 ^ j / 2 ^ 52"
    define D :: int where "D = 2 ^ (52 - j)"
    define H :: int where "H = 2 ^ (51 - j)"
    note u = ulp_scale[OF j, folded d_def D_def H_def]
    have Dd: "real_of_int D * d = 1" by (rule u(1))
    have DH: "D = 2 * H" by (rule u(3))
    have Hd: "real_of_int H * d = 1 / 2" using Dd unfolding DH by simp
    have H0: "0 < H" "H \<le> 2 ^ 51" unfolding H_def using u(5) by (simp_all add: H_def)
    have d0: "0 < d" unfolding d_def by simp
    have hD: "\<bar>h * D\<bar> \<le> 2 ^ 52"
    proof -
      have "\<bar>h * D\<bar> = \<bar>h\<bar> * D" unfolding D_def by (simp add: abs_mult)
      also have "\<dots> \<le> 2 ^ j * D" using hb unfolding D_def by (intro mult_right_mono) simp_all
      also have "\<dots> = 2 ^ 52" unfolding D_def by (rule ulp_scale(4)[OF j])
      finally show ?thesis .
    qed
    have e5: "of_int h + 1 / 2 - d = of_int (h * D + H - 1) * pow2 (int j - 52)"
    proof -
      have "of_int (h * D + H - 1) * d = of_int h * (of_int D * d) + of_int H * d - d"
        by (simp add: algebra_simps)
      also have "\<dots> = of_int h + 1 / 2 - d" by (simp only: Dd Hd mult_1_right)
      finally show ?thesis unfolding u(2) by simp
    qed
    have r5: "representable (of_int h + 1 / 2 - d)"
    proof (rule rep_pm[OF _ _ _ e5])
      show "\<bar>h * D + H - 1\<bar> < 2 ^ 53" using hD H0 by simp
      show "- 1074 \<le> int j - 52" by simp
      show "int j - 52 \<le> 970" using j by simp
    qed
    from c have hi': "t \<le> of_int h + 1 / 2 - d" unfolding d_def by linarith
    from rounds_to_between[OF rA lo hi' r1 r5] have vA': "valof A \<le> of_int h + 1 / 2 - d" by simp
    then have bB': "valof A + 1 / 2 \<le> of_int h + 1 - d" by simp
    have e6: "of_int h + 1 - d = of_int (h * D + D - 1) * pow2 (int j - 52)"
    proof -
      have "of_int (h * D + D - 1) * d = of_int h * (of_int D * d) + of_int D * d - d"
        by (simp add: algebra_simps)
      also have "\<dots> = of_int h + 1 - d" by (simp only: Dd mult_1_right)
      finally show ?thesis unfolding u(2) by simp
    qed
    have r6: "representable (of_int h + 1 - d)"
    proof (rule rep_pm[OF _ _ _ e6])
      show "\<bar>h * D + D - 1\<bar> < 2 ^ 53" using hD H0 unfolding DH by simp
      show "- 1074 \<le> int j - 52" by simp
      show "int j - 52 \<le> 970" using j by simp
    qed
    from rounds_to_between[OF rB bB(1) bB' r3 r6] have "valof Bf \<le> of_int h + 1 - d" by simp
    with d0 have "valof Bf < of_int (h + 1)" by simp
    then have "k < h + 1" unfolding k_def by (simp only: floor_less_iff)
    with k1 show ?thesis by simp
  qed
  from h48 have "\<bar>k\<bar> \<le> 2 ^ 49" using k1 k2 by simp
  then have kM: "\<bar>k\<bar> \<le> (2 ^ 53 - 1) * 2 ^ 971" by simp
  have "(1::int) \<le> 10 ^ p" by simp
  from int_truediv_returns[OF kM this] obtain y where
    y: "int_truediv k (10 ^ p) = Inr y" "is_finite y" "valof y = rnds (of_int k / of_int (10 ^ p))"
    by blast
  have fl': "math_floor (float_add (float_mul ?x ?F) fhalf) = Inr k"
    using fl unfolding Bf_def A_def .
  have "round_component p ?x = Inr y"
    using y(1) by (simp add: round_component_def F fl' del: float_mul.simps float_add.simps)
  with y k1 k2 k3 show ?thesis by auto
qed


lemma round_component_half_up:
  assumes p: "p \<le> 22" and j: "j \<le> 48" and f: "is_finite x" and b: "\<bar>valof x\<bar> * 10 ^ p \<le> 2 ^ j"
  shows "\<exists>k y. round_component p x = Inr y
           \<and> int_truediv k (10 ^ p) = Inr y \<and> valof y = rnds (of_int k / 10 ^ p)
           \<and> \<lfloor>valof x * 10 ^ p + 1 / 2\<rfloor> \<le> k \<and> k \<le> \<lfloor>valof x * 10 ^ p + 1 / 2\<rfloor> + 1
           \<and> (valof x * 10 ^ p + 2 ^ j / 2 ^ 52 \<le> of_int \<lfloor>valof x * 10 ^ p + 1 / 2\<rfloor> + 1 / 2
                \<longrightarrow> k = \<lfloor>valof x * 10 ^ p + 1 / 2\<rfloor>)
           \<and> (\<forall>n. valof x * 10 ^ p = of_int n + 1 / 2 \<longrightarrow> k = n + 1)"
proof -
  from finite_Flt[OF f] obtain s m e where x: "x = Flt s m e" by blast
  define t where "t = valof x * 10 ^ p"
  define h where "h = \<lfloor>valof x * 10 ^ p + 1 / 2\<rfloor>"
  from round_component_near[OF p j b[unfolded x]] obtain k y where
    y: "round_component p x = Inr y" "int_truediv k (10 ^ p) = Inr y"
       "valof y = rnds (of_int k / 10 ^ p)" "h \<le> k" "k \<le> h + 1"
       "t + 2 ^ j / 2 ^ 52 \<le> of_int h + 1 / 2 \<longrightarrow> k = h"
    unfolding x t_def h_def by blast
  have tie: "k = n + 1" if n: "t = of_int n + 1 / 2" for n
  proof -
    have "t + 1 / 2 = real_of_int (n + 1)" using n by simp
    then have "\<lfloor>t + 1 / 2\<rfloor> = n + 1" by (simp only: floor_of_int)
    then have hn: "h = n + 1" unfolding h_def t_def .
    have "(2::real) ^ j \<le> 2 ^ 52" using j by (intro power_increasing) simp_all
    then have "(2::real) ^ j / 2 ^ 52 \<le> 1" by simp
    with n hn have "t + 2 ^ j / 2 ^ 52 \<le> of_int h + 1 / 2" by simp
    with y(6) hn show ?thesis by simp
  qed
  from y tie show ?thesis unfolding t_def h_def by blast
qed

text \<open>
  C6 (amended).  At a precision \<open>p \<le> 22\<close> (the powers of ten that are doubles), on a vector of
  finite floats whose components \<open>x\<close> satisfy \<open>\<bar>x\<bar> * 10 ^ p \<le> 2 ^ j\<close> with \<open>j \<le> 48\<close>, \<^verbatim>\<open>round_vector\<close>
  returns a vector of the same length.  Its component at an index is what \<^verbatim>\<open>round_vector\<close> returns
  on the component of \<open>v\<close> at that index alone, and is the double nearest to \<open>k / 10 ^ p\<close> for an
  integer \<open>k\<close> that is \<open>\<lfloor>x * 10 ^ p + 1 / 2\<rfloor>\<close> or one more.  It is \<open>\<lfloor>x * 10 ^ p + 1 / 2\<rfloor>\<close> whenever
  \<open>x * 10 ^ p\<close> lies at least \<open>2 ^ j / 2 ^ 52\<close> below the tie above it, and at an exact tie
  \<open>x * 10 ^ p = n + 1 / 2\<close> it is \<open>n + 1\<close>, for even and for odd \<open>n\<close>.
\<close>

theorem round_vector_half_up:
  assumes "p \<le> 22" and "j \<le> 48" and "\<forall>x\<in>set v. is_finite x \<and> \<bar>valof x\<bar> * 10 ^ p \<le> 2 ^ j"
  shows "\<exists>w. round_vector v p = Inr w \<and> length w = length v \<and>
     (\<forall>i<length v. round_vector [v ! i] p = Inr [w ! i] \<and>
        (\<exists>k. int_truediv k (10 ^ p) = Inr (w ! i) \<and> valof (w ! i) = rnds (of_int k / 10 ^ p)
           \<and> \<lfloor>valof (v ! i) * 10 ^ p + 1 / 2\<rfloor> \<le> k \<and> k \<le> \<lfloor>valof (v ! i) * 10 ^ p + 1 / 2\<rfloor> + 1
           \<and> (valof (v ! i) * 10 ^ p + 2 ^ j / 2 ^ 52 \<le> of_int \<lfloor>valof (v ! i) * 10 ^ p + 1 / 2\<rfloor> + 1 / 2
                \<longrightarrow> k = \<lfloor>valof (v ! i) * 10 ^ p + 1 / 2\<rfloor>)
           \<and> (\<forall>n. valof (v ! i) * 10 ^ p = of_int n + 1 / 2 \<longrightarrow> k = n + 1)))"
proof -
  have "\<forall>x\<in>set v. \<exists>y. round_component p x = Inr y"
    using round_component_half_up[OF assms(1,2)] assms(3) by blast
  from map_err_total[OF this] obtain w where w: "map_err (round_component p) v = Inr w" ..
  then have rv: "round_vector v p = Inr w" by (simp add: round_vector_def)
  from w have len: "length w = length v" by (rule map_err_length)
  from w have nth: "\<forall>i<length v. round_component p (v ! i) = Inr (w ! i)"
    by (simp add: map_err_list_all2 list_all2_conv_all_nth)
  have "round_vector [v ! i] p = Inr [w ! i] \<and>
        (\<exists>k. int_truediv k (10 ^ p) = Inr (w ! i) \<and> valof (w ! i) = rnds (of_int k / 10 ^ p)
           \<and> \<lfloor>valof (v ! i) * 10 ^ p + 1 / 2\<rfloor> \<le> k \<and> k \<le> \<lfloor>valof (v ! i) * 10 ^ p + 1 / 2\<rfloor> + 1
           \<and> (valof (v ! i) * 10 ^ p + 2 ^ j / 2 ^ 52 \<le> of_int \<lfloor>valof (v ! i) * 10 ^ p + 1 / 2\<rfloor> + 1 / 2
                \<longrightarrow> k = \<lfloor>valof (v ! i) * 10 ^ p + 1 / 2\<rfloor>)
           \<and> (\<forall>n. valof (v ! i) * 10 ^ p = of_int n + 1 / 2 \<longrightarrow> k = n + 1))"
    if i: "i < length v" for i
  proof -
    from i have "v ! i \<in> set v" by simp
    with assms(3) have fx: "is_finite (v ! i)" "\<bar>valof (v ! i)\<bar> * 10 ^ p \<le> 2 ^ j" by blast+
    from nth i have c: "round_component p (v ! i) = Inr (w ! i)" by blast
    then have one: "round_vector [v ! i] p = Inr [w ! i]" by (simp add: round_vector_def)
    from round_component_half_up[OF assms(1,2) fx] c one show ?thesis by auto
  qed
  with rv len show ?thesis by blast
qed


theorem round_vector_half_up_witness:
  "(2::nat) \<le> 22 \<and> (4::nat) \<le> 48
   \<and> is_finite (Flt False 4503599627370496 (- 55))
   \<and> \<bar>valof (Flt False 4503599627370496 (- 55))\<bar> * 10 ^ 2 \<le> 2 ^ 4
   \<and> valof (Flt False 4503599627370496 (- 55)) * 10 ^ 2 = of_int 12 + 1 / 2
   \<and> round_vector [Flt False 4503599627370496 (- 55)] 2 = Inr [Flt False 4683743612465316 (- 55)]
   \<and> int_truediv 13 (10 ^ 2) = Inr (Flt False 4683743612465316 (- 55))
   \<and> valof (Flt False 4683743612465316 (- 55)) = rnds (of_int 13 / 10 ^ 2)
   \<and> int_truediv 12 (10 ^ 2) = Inr (Flt False 8646911284551352 (- 56))
   \<and> Flt False 4683743612465316 (- 55) \<noteq> Flt False 8646911284551352 (- 56)"
proof -
  let ?x = "Flt False 4503599627370496 (- 55)"
  let ?y = "Flt False 4683743612465316 (- 55)"
  have t: "valof ?x * 10 ^ 2 = of_int 12 + 1 / 2" by (simp add: pow2_def)
  have a: "\<forall>x\<in>set [?x]. is_finite x \<and> \<bar>valof x\<bar> * 10 ^ 2 \<le> 2 ^ 4"
    by (simp add: pow2_def)
  have b: "round_vector [?x] 2 = Inr [?y]" by (simp add: ev)
  have d: "int_truediv 13 (10 ^ 2) = Inr ?y" by (simp add: ev)
  have d': "int_truediv 12 (10 ^ 2) = Inr (Flt False 8646911284551352 (- 56))" by (simp add: ev)
  from round_vector_half_up[of 2 4 "[?x]"] a obtain w where
    w: "round_vector [?x] 2 = Inr w"
       "\<forall>i<length [?x]. \<exists>k. valof (w ! i) = rnds (of_int k / 10 ^ 2)
           \<and> (\<forall>n. valof ([?x] ! i) * 10 ^ 2 = of_int n + 1 / 2 \<longrightarrow> k = n + 1)"
    by (auto simp del: valof.simps)
  from w(1) b have "w = [?y]" by simp
  with w(2) obtain k where
    k: "valof ?y = rnds (of_int k / 10 ^ 2)" "\<forall>n. valof ?x * 10 ^ 2 = of_int n + 1 / 2 \<longrightarrow> k = n + 1"
    by (auto simp del: valof.simps)
  from k(2)[rule_format, OF t] have "k = 13" by simp
  with k(1) have v: "valof ?y = rnds (of_int 13 / 10 ^ 2)" by (simp only:)
  have f1: "is_finite ?x" by simp
  have f2: "\<bar>valof ?x\<bar> * 10 ^ 2 \<le> 2 ^ 4" by (simp add: pow2_def)
  have n1: "(2::nat) \<le> 22" "(4::nat) \<le> 48" by simp_all
  have ne: "?y \<noteq> Flt False 8646911284551352 (- 56)" by simp
  from n1 f1 f2 t b d d' v ne show ?thesis by (simp only: simp_thms)
qed

text \<open>
  At precision 0 the largest double below one half, \<open>0.49999999999999994\<close>, goes to \<open>1.0\<close>, although
  \<open>\<lfloor>x + 1 / 2\<rfloor> = 0\<close>: the sum \<^verbatim>\<open>x * factor + 0.5\<close> is rounded to the nearest double, here \<open>1.0\<close>,
  before \<^verbatim>\<open>math.floor\<close> sees it.
\<close>

theorem round_vector_below_half_counterexample:
  "round_vector [Flt False 9007199254740991 (- 54)] 0 = Inr [Flt False 4503599627370496 (- 52)]
   \<and> valof (Flt False 4503599627370496 (- 52)) = 1
   \<and> valof (Flt False 9007199254740991 (- 54)) * 10 ^ 0 < 1 / 2
   \<and> \<lfloor>valof (Flt False 9007199254740991 (- 54)) * 10 ^ 0 + 1 / 2\<rfloor> = 0"
proof -
  have a: "round_vector [Flt False 9007199254740991 (- 54)] 0 = Inr [Flt False 4503599627370496 (- 52)]"
    by (simp add: ev)
  have b: "valof (Flt False 4503599627370496 (- 52)) = 1" by (simp add: pow2_def)
  have c: "valof (Flt False 9007199254740991 (- 54)) = 9007199254740991 / 18014398509481984"
    by (simp add: pow2_def)
  have e: "valof (Flt False 9007199254740991 (- 54)) * 10 ^ 0 < 1 / 2"
    unfolding c by simp
  have d: "\<lfloor>valof (Flt False 9007199254740991 (- 54)) * 10 ^ 0 + 1 / 2\<rfloor> = 0"
    unfolding c by (simp add: floor_eq_iff)
  from a b e d show ?thesis by (simp only: simp_thms)
qed

text \<open>
  At precision 23 the factor \<open>10 ^ 23\<close> is not a double.  The exact product of \<open>2 ^ - 24\<close> and
  \<open>10 ^ 23\<close> is the tie \<open>5960464477539062 + 1 / 2\<close>, and the result is the double nearest to
  \<open>5960464477539062 / 10 ^ 23\<close>, the lower neighbour.
\<close>

lemma round_vector_tie_down_example:
  "round_vector [Flt False 4503599627370496 (- 76)] 23 = Inr [Flt False 9007199254740991 (- 77)]
   \<and> valof (Flt False 4503599627370496 (- 76)) * 10 ^ 23 = of_int 5960464477539062 + 1 / 2
   \<and> int_truediv 5960464477539062 (10 ^ 23) = Inr (Flt False 9007199254740991 (- 77))
   \<and> int_truediv 5960464477539063 (10 ^ 23) = Inr (Flt False 4503599627370496 (- 76))"
proof -
  have a: "round_vector [Flt False 4503599627370496 (- 76)] 23 = Inr [Flt False 9007199254740991 (- 77)]"
    by (simp add: ev)
  have b: "valof (Flt False 4503599627370496 (- 76)) * 10 ^ 23 = of_int 5960464477539062 + 1 / 2"
    by (simp add: pow2_def)
  have c: "int_truediv 5960464477539062 (10 ^ 23) = Inr (Flt False 9007199254740991 (- 77))"
    by (simp add: ev)
  have d: "int_truediv 5960464477539063 (10 ^ 23) = Inr (Flt False 4503599627370496 (- 76))"
    by (simp add: ev)
  from a b c d show ?thesis by (simp only: simp_thms)
qed

end
